theory Spec2Isabelle
  imports Main "HOL-Library.Word"
begin

section \<open>Byte buffers, errors and the codec record\<close>

text \<open>
  A freshly allocated byte buffer (what \<open>new Uint8Array(n)\<close>, \<open>encode\<close> and
  \<open>slice\<close> return) is the list of its bytes, \<open>Bytes\<close>. Every \<open>throw\<close> of the source
  is a value of \<open>error\<close>:
  \<^item> \<open>DecodeError expected actual\<close> is the size error of \<open>fixedBytesFrom\<close>, an \<open>Error\<close>
    whose message is \<open>int<expected>: invalid buffer size, expected <expected>, but got
    <actual>\<close>, the size error of a codec with a static length, and the size or offset
    error of the combinators;
  \<^item> \<open>RangeError\<close> is what a \<open>DataView\<close> accessor throws when the access leaves the view;
  \<^item> \<open>ItemError i e\<close> is the error \<open>e\<close> of item \<open>i\<close> of a vector, tagged with the index.
\<close>

type_synonym byte = "8 word"
type_synonym Bytes = "byte list"

datatype error =
    DecodeError nat nat
  | RangeError
  | ItemError nat error

text \<open>
  The argument of \<open>decode\<close> is a \<open>Uint8Array\<close> that somebody else made: a window on an
  \<open>ArrayBuffer\<close> that may be larger than the window. It is given by the bytes of the
  \<open>ArrayBuffer\<close> before the window, the bytes of the window (the array's own elements) and
  the bytes after it. Its \<open>byteOffset\<close> is the number of bytes before the window, its
  length the number of bytes in the window, and its \<open>buffer\<close> property, the whole
  \<open>ArrayBuffer\<close>, is the three parts in a row. A fresh buffer is a window on all of its
  own storage.
\<close>

record BytesLike =
  preceding :: Bytes
  contents :: Bytes
  trailing :: Bytes

definition arrayBuffer :: "BytesLike \<Rightarrow> Bytes" where
  "arrayBuffer bytes = preceding bytes @ contents bytes @ trailing bytes"

definition freshBytes :: "Bytes \<Rightarrow> BytesLike" where
  "freshBytes bs = \<lparr>preceding = [], contents = bs, trailing = []\<rparr>"

record ('e, 'd) Codec =
  encode :: "'e \<Rightarrow> error + Bytes"
  decode :: "BytesLike \<Rightarrow> error + 'd"
  byteLength :: "nat option"

text \<open>
  Modelled from the spec: \<open>bytesFrom\<close> lives in \<open>bytes/index.ts\<close>, which is not among the
  sources. It is the byte-buffer-like input normaliser of section 6; a \<open>Uint8Array\<close> is a
  byte buffer already and is returned as it is, on the same \<open>ArrayBuffer\<close>.
\<close>

definition bytesFrom :: "BytesLike \<Rightarrow> BytesLike" where
  "bytesFrom bytesLike = bytesLike"

text \<open>
  Modelled from the spec: \<open>Codec.from\<close> lives in \<open>codec.ts\<close>, which is not among the
  sources. It stores \<open>encode\<close>, \<open>decode\<close> and the optional static length, and validates
  nothing when the codec is built (section 4.1). The codec it returns keeps the invariant of
  section 3: when a static length is present, \<open>decode\<close> rejects any buffer whose length
  differs, with the expected and the actual size (sections 4.1 and 7). The codecs of
  \<open>molecule/signed.ts\<close> rely on it: they pass their \<open>byteLength\<close> and compare no sizes
  themselves.
\<close>

definition Codec_from ::
  "('e \<Rightarrow> error + Bytes) \<Rightarrow> (BytesLike \<Rightarrow> error + 'd) \<Rightarrow> nat option \<Rightarrow> ('e, 'd) Codec" where
  "Codec_from enc dec len =
     \<lparr>encode = enc,
      decode = (\<lambda>decodable.
        let decodableBytes = bytesFrom decodable
        in case len of
             None \<Rightarrow> dec decodable
           | Some expected \<Rightarrow>
               if length (contents decodableBytes) \<noteq> expected
               then Inl (DecodeError expected (length (contents decodableBytes)))
               else dec decodable),
      byteLength = len\<rparr>"

text \<open>\<open>new Uint8Array(n)\<close>: \<open>n\<close> zero bytes.\<close>

definition Uint8Array :: "nat \<Rightarrow> Bytes" where
  "Uint8Array n = replicate n 0"

section \<open>Numbers of the host language\<close>

text \<open>
  A \<open>NumLike\<close> argument is modelled by the integer it denotes: a bigint, or a number that
  holds an integer. \<open>Number(numLike)\<close> converts it to a double: the integer itself when it
  has at most 53 significant bits, else the nearest double, ties to the even significand,
  and an infinity from \<open>2^1024 - 2^970\<close> on. On an argument that already is a number the
  conversion changes nothing, since that integer is a double.
\<close>

type_synonym NumLike = int

datatype number = Finite int | PosInfinity | NegInfinity

fun bitLength :: "nat \<Rightarrow> nat" where
  "bitLength n = (if n = 0 then 0 else Suc (bitLength (n div 2)))"

declare bitLength.simps [simp del]

definition roundToDouble :: "int \<Rightarrow> int" where
  "roundToDouble n =
     (let a = \<bar>n\<bar> in
      if a < 2 ^ 53 then n
      else
        let e = bitLength (nat a) - 53;
            q = a div 2 ^ e;
            r = a mod 2 ^ e;
            q' = (if 2 * r > 2 ^ e \<or> (2 * r = 2 ^ e \<and> odd q) then q + 1 else q)
        in sgn n * (q' * 2 ^ e))"

definition Number :: "NumLike \<Rightarrow> number" where
  "Number numLike =
     (let r = roundToDouble numLike in
      if r \<ge> 2 ^ 1024 then PosInfinity
      else if r \<le> - (2 ^ 1024) then NegInfinity
      else Finite r)"

text \<open>
  Modelled from the spec: \<open>numFrom\<close> lives in \<open>num/index.ts\<close>, which is not among the
  sources. Section 4.2: the input of a 64-bit codec is converted to an arbitrary-precision
  integer; on an integer the conversion is exact.
\<close>

definition numFrom :: "NumLike \<Rightarrow> int" where
  "numFrom numLike = numLike"

text \<open>
  \<open>ToInt8\<close>, \<open>ToInt16\<close>, \<open>ToInt32\<close> of the language: a number that is not finite becomes 0,
  a finite one is reduced modulo \<open>2^w\<close> into the signed range. \<open>ToBigInt64\<close> does the same
  on a bigint.
\<close>

definition wrapSigned :: "nat \<Rightarrow> int \<Rightarrow> int" where
  "wrapSigned w i = (let m = i mod 2 ^ w in if m \<ge> 2 ^ (w - 1) then m - 2 ^ w else m)"

fun ToIntN :: "nat \<Rightarrow> number \<Rightarrow> int" where
  "ToIntN w (Finite i) = wrapSigned w i"
| "ToIntN w PosInfinity = 0"
| "ToIntN w NegInfinity = 0"

definition ToBigIntN :: "nat \<Rightarrow> int \<Rightarrow> int" where
  "ToBigIntN w i = wrapSigned w i"

text \<open>
  \<open>NumericToRawBytes\<close> and \<open>RawBytesToNumeric\<close>: the two's-complement bytes of an integer,
  least significant byte first, reversed for big-endian.
\<close>

fun rawBytesLE :: "nat \<Rightarrow> int \<Rightarrow> Bytes" where
  "rawBytesLE 0 v = []"
| "rawBytesLE (Suc k) v = word_of_int v # rawBytesLE k (v div 256)"

fun valueLE :: "Bytes \<Rightarrow> int" where
  "valueLE [] = 0"
| "valueLE (b # bs) = uint b + 256 * valueLE bs"

definition NumericToRawBytes :: "nat \<Rightarrow> int \<Rightarrow> bool \<Rightarrow> Bytes" where
  "NumericToRawBytes elementSize intValue isLittleEndian =
     (let rawBytes = rawBytesLE elementSize intValue
      in if isLittleEndian then rawBytes else rev rawBytes)"

definition RawBytesToNumeric :: "nat \<Rightarrow> Bytes \<Rightarrow> bool \<Rightarrow> int" where
  "RawBytesToNumeric elementSize rawBytes isLittleEndian =
     (let raw = (if isLittleEndian then rawBytes else rev rawBytes);
          u = valueLE raw
      in if u \<ge> 2 ^ (8 * elementSize - 1) then u - 2 ^ (8 * elementSize) else u)"

text \<open>
  A \<open>DataView\<close> built from an \<open>ArrayBuffer\<close> alone spans the whole \<open>ArrayBuffer\<close>, from
  its byte 0; \<open>view\<close> below is that \<open>ArrayBuffer\<close>. The decoders build it as
  \<open>new DataView(bytes.buffer)\<close>, so it does not start at the array's \<open>byteOffset\<close> and
  does not end with the array. An access of \<open>elementSize\<close> bytes at \<open>requestIndex\<close> throws
  a \<open>RangeError\<close> when it does not fit; a setter returns the updated buffer.
\<close>

definition GetViewValue :: "Bytes \<Rightarrow> nat \<Rightarrow> bool \<Rightarrow> nat \<Rightarrow> error + int" where
  "GetViewValue view requestIndex isLittleEndian elementSize =
     (if requestIndex + elementSize > length view then Inl RangeError
      else Inr (RawBytesToNumeric elementSize
                  (take elementSize (drop requestIndex view)) isLittleEndian))"

definition SetViewValue :: "Bytes \<Rightarrow> nat \<Rightarrow> bool \<Rightarrow> nat \<Rightarrow> int \<Rightarrow> error + Bytes" where
  "SetViewValue view requestIndex isLittleEndian elementSize intValue =
     (if requestIndex + elementSize > length view then Inl RangeError
      else Inr (take requestIndex view
                @ NumericToRawBytes elementSize intValue isLittleEndian
                @ drop (requestIndex + elementSize) view))"

definition setInt8 :: "Bytes \<Rightarrow> nat \<Rightarrow> number \<Rightarrow> error + Bytes" where
  "setInt8 view byteOffset v = SetViewValue view byteOffset True 1 (ToIntN 8 v)"

definition setInt16 :: "Bytes \<Rightarrow> nat \<Rightarrow> number \<Rightarrow> bool \<Rightarrow> error + Bytes" where
  "setInt16 view byteOffset v littleEndian =
     SetViewValue view byteOffset littleEndian 2 (ToIntN 16 v)"

definition setInt32 :: "Bytes \<Rightarrow> nat \<Rightarrow> number \<Rightarrow> bool \<Rightarrow> error + Bytes" where
  "setInt32 view byteOffset v littleEndian =
     SetViewValue view byteOffset littleEndian 4 (ToIntN 32 v)"

definition setBigInt64 :: "Bytes \<Rightarrow> nat \<Rightarrow> int \<Rightarrow> bool \<Rightarrow> error + Bytes" where
  "setBigInt64 view byteOffset v littleEndian =
     SetViewValue view byteOffset littleEndian 8 (ToBigIntN 64 v)"

definition getInt8 :: "Bytes \<Rightarrow> nat \<Rightarrow> error + int" where
  "getInt8 view byteOffset = GetViewValue view byteOffset True 1"

definition getInt16 :: "Bytes \<Rightarrow> nat \<Rightarrow> bool \<Rightarrow> error + int" where
  "getInt16 view byteOffset littleEndian = GetViewValue view byteOffset littleEndian 2"

definition getInt32 :: "Bytes \<Rightarrow> nat \<Rightarrow> bool \<Rightarrow> error + int" where
  "getInt32 view byteOffset littleEndian = GetViewValue view byteOffset littleEndian 4"

definition getBigInt64 :: "Bytes \<Rightarrow> nat \<Rightarrow> bool \<Rightarrow> error + int" where
  "getBigInt64 view byteOffset littleEndian = GetViewValue view byteOffset littleEndian 8"

section \<open>The signed-integer codecs of \<open>molecule/signed.ts\<close>\<close>

text \<open>
  Each codec passes its \<open>byteLength\<close> to \<open>Codec.from\<close>; \<open>decode\<close> normalises the input
  with \<open>bytesFrom\<close> and reads at offset 0 of a view over its \<open>ArrayBuffer\<close>. The encoders
  write into a fresh array, whose \<open>ArrayBuffer\<close> is the array itself.
\<close>

definition Int8 :: "(NumLike, int) Codec" where
  "Int8 = Codec_from
     (\<lambda>numLike. let encoded = Uint8Array 1 in setInt8 encoded 0 (Number numLike))
     (\<lambda>bytesLike. let bytes = bytesFrom bytesLike in getInt8 (arrayBuffer bytes) 0)
     (Some 1)"

definition int16Number :: "bool \<Rightarrow> (NumLike, int) Codec" where
  "int16Number littleEndian =
     (let byteLength = 2 in Codec_from
        (\<lambda>numLike. let encoded = Uint8Array byteLength
                    in setInt16 encoded 0 (Number numLike) littleEndian)
        (\<lambda>bytesLike. let bytes = bytesFrom bytesLike in getInt16 (arrayBuffer bytes) 0 littleEndian)
        (Some byteLength))"

definition int32Number :: "bool \<Rightarrow> (NumLike, int) Codec" where
  "int32Number littleEndian =
     (let byteLength = 4 in Codec_from
        (\<lambda>numLike. let encoded = Uint8Array byteLength
                    in setInt32 encoded 0 (Number numLike) littleEndian)
        (\<lambda>bytesLike. let bytes = bytesFrom bytesLike in getInt32 (arrayBuffer bytes) 0 littleEndian)
        (Some byteLength))"

definition int64 :: "bool \<Rightarrow> (NumLike, int) Codec" where
  "int64 littleEndian =
     (let byteLength = 8 in Codec_from
        (\<lambda>numLike. let encoded = Uint8Array byteLength
                    in setBigInt64 encoded 0 (numFrom numLike) littleEndian)
        (\<lambda>bytesLike. let bytes = bytesFrom bytesLike in getBigInt64 (arrayBuffer bytes) 0 littleEndian)
        (Some byteLength))"

definition Int16LE :: "(NumLike, int) Codec" where "Int16LE = int16Number True"
definition Int16BE :: "(NumLike, int) Codec" where "Int16BE = int16Number False"
definition Int16 :: "(NumLike, int) Codec" where "Int16 = Int16LE"
definition Int32LE :: "(NumLike, int) Codec" where "Int32LE = int32Number True"
definition Int32BE :: "(NumLike, int) Codec" where "Int32BE = int32Number False"
definition Int32 :: "(NumLike, int) Codec" where "Int32 = Int32LE"
definition Int64LE :: "(NumLike, int) Codec" where "Int64LE = int64 True"
definition Int64BE :: "(NumLike, int) Codec" where "Int64BE = int64 False"
definition Int64 :: "(NumLike, int) Codec" where "Int64 = Int64LE"

section \<open>The signed-integer codecs of \<open>src/unnamed/part_000\<close>\<close>

text \<open>
  The repository holds a second version of the module, \<open>src/unnamed/part_000\<close>. It differs
  in two places: \<open>decode\<close> goes through \<open>fixedBytesFrom\<close>, which compares the buffer's
  size with the expected one, and \<open>Int8\<close> calls \<open>Codec.from\<close> without a
  \<open>byteLength\<close>. Its constants carry the prefix \<open>p0\<close>.
\<close>

definition fixedBytesFrom :: "BytesLike \<Rightarrow> nat \<Rightarrow> error + BytesLike" where
  "fixedBytesFrom bufferLike byteLength' =
     (let buffer = bytesFrom bufferLike
      in if length (contents buffer) \<noteq> byteLength'
         then Inl (DecodeError byteLength' (length (contents buffer)))
         else Inr buffer)"

definition p0_Int8 :: "(NumLike, int) Codec" where
  "p0_Int8 = Codec_from
     (\<lambda>numLike. let encoded = [0] in setInt8 encoded 0 (Number numLike))
     (\<lambda>bufferLike. case fixedBytesFrom bufferLike 1 of
          Inl e \<Rightarrow> Inl e
        | Inr buffer \<Rightarrow> getInt8 (arrayBuffer buffer) 0)
     None"

definition p0_int16Number :: "bool \<Rightarrow> (NumLike, int) Codec" where
  "p0_int16Number littleEndian =
     (let byteLength = 2 in Codec_from
        (\<lambda>numLike. let encoded = [0, 0]
                    in setInt16 encoded 0 (Number numLike) littleEndian)
        (\<lambda>bufferLike. case fixedBytesFrom bufferLike byteLength of
             Inl e \<Rightarrow> Inl e
           | Inr buffer \<Rightarrow> getInt16 (arrayBuffer buffer) 0 littleEndian)
        (Some byteLength))"

definition p0_int32Number :: "bool \<Rightarrow> (NumLike, int) Codec" where
  "p0_int32Number littleEndian =
     (let byteLength = 4 in Codec_from
        (\<lambda>numLike. let encoded = [0, 0, 0, 0]
                    in setInt32 encoded 0 (Number numLike) littleEndian)
        (\<lambda>bufferLike. case fixedBytesFrom bufferLike byteLength of
             Inl e \<Rightarrow> Inl e
           | Inr buffer \<Rightarrow> getInt32 (arrayBuffer buffer) 0 littleEndian)
        (Some byteLength))"

definition p0_int64 :: "bool \<Rightarrow> (NumLike, int) Codec" where
  "p0_int64 littleEndian =
     (let byteLength = 8 in Codec_from
        (\<lambda>numLike. let encoded = [0, 0, 0, 0, 0, 0, 0, 0]
                    in setBigInt64 encoded 0 (numFrom numLike) littleEndian)
        (\<lambda>bufferLike. case fixedBytesFrom bufferLike byteLength of
             Inl e \<Rightarrow> Inl e
           | Inr buffer \<Rightarrow> getBigInt64 (arrayBuffer buffer) 0 littleEndian)
        (Some byteLength))"

definition p0_Int16LE :: "(NumLike, int) Codec" where "p0_Int16LE = p0_int16Number True"
definition p0_Int16BE :: "(NumLike, int) Codec" where "p0_Int16BE = p0_int16Number False"
definition p0_Int32LE :: "(NumLike, int) Codec" where "p0_Int32LE = p0_int32Number True"
definition p0_Int32BE :: "(NumLike, int) Codec" where "p0_Int32BE = p0_int32Number False"
definition p0_Int64LE :: "(NumLike, int) Codec" where "p0_Int64LE = p0_int64 True"
definition p0_Int64BE :: "(NumLike, int) Codec" where "p0_Int64BE = p0_int64 False"

section \<open>The family of primitive codecs\<close>

text \<open>
  Every primitive codec with its width in bits and its byte order (\<open>True\<close> for
  little-endian; for one byte the order does not matter).
\<close>

definition signed_primitives :: "(nat \<times> bool \<times> (NumLike, int) Codec) list" where
  "signed_primitives =
     [(8, True, Int8),
      (16, True, Int16LE), (16, False, Int16BE),
      (32, True, Int32LE), (32, False, Int32BE),
      (64, True, Int64LE), (64, False, Int64BE)]"

definition p0_primitives :: "(nat \<times> bool \<times> (NumLike, int) Codec) list" where
  "p0_primitives =
     [(8, True, p0_Int8),
      (16, True, p0_Int16LE), (16, False, p0_Int16BE),
      (32, True, p0_Int32LE), (32, False, p0_Int32BE),
      (64, True, p0_Int64LE), (64, False, p0_Int64BE)]"

definition primitives :: "(nat \<times> bool \<times> (NumLike, int) Codec) list" where
  "primitives = signed_primitives @ p0_primitives"

definition inRange :: "nat \<Rightarrow> int \<Rightarrow> bool" where
  "inRange w n \<longleftrightarrow> - (2 ^ (w - 1)) \<le> n \<and> n < 2 ^ (w - 1)"

text \<open>
  \<open>decode(encode(v))\<close>, an error of either step being the result. \<open>decode\<close> receives
  the fresh buffer that \<open>encode\<close> returned.
\<close>

definition roundTrip :: "('e, 'd) Codec \<Rightarrow> 'e \<Rightarrow> error + 'd" where
  "roundTrip c v =
     (case encode c v of Inl e \<Rightarrow> Inl e | Inr b \<Rightarrow> decode c (freshBytes b))"

text \<open>The unsigned value of a buffer read in the given byte order.\<close>

definition unsignedValue :: "bool \<Rightarrow> Bytes \<Rightarrow> int" where
  "unsignedValue littleEndian bs = valueLE (if littleEndian then bs else rev bs)"

text \<open>
  The integer that a codec of width \<open>w\<close> hands to the view: \<open>ToBigInt64\<close> of \<open>numFrom\<close>
  in the 64-bit codecs, \<open>ToIntN\<close> of \<open>Number\<close> in the others.
\<close>

definition encodedInt :: "nat \<Rightarrow> NumLike \<Rightarrow> int" where
  "encodedInt w n = (if w = 64 then ToBigIntN 64 (numFrom n) else ToIntN w (Number n))"

section \<open>The combinators\<close>

text \<open>
  \<open>option\<close> and \<open>vector\<close> live in \<open>codec.ts\<close>, which is not among the sources; the
  signed-integer modules only apply them. They are modelled from sections 4.3, 4.4 and 6 of
  the specification.
\<close>

text \<open>
  Modelled from the spec: the \<open>option\<close> combinator of \<open>codec.ts\<close> (section 4.3). Absent
  encodes to zero bytes, a present value to the inner encoding; an empty buffer decodes to
  absent, any other buffer through the inner codec, whose failure is passed on unchanged. The
  static length is always absent.
\<close>

definition option :: "('e, 'd) Codec \<Rightarrow> ('e option, 'd option) Codec" where
  "option innerCodec = Codec_from
     (\<lambda>v. case v of None \<Rightarrow> Inr [] | Some x \<Rightarrow> encode innerCodec x)
     (\<lambda>buffer. if contents buffer = [] then Inr None
                 else (case decode innerCodec buffer of
                         Inl e \<Rightarrow> Inl e
                       | Inr x \<Rightarrow> Inr (Some x)))
     None"

text \<open>
  Modelled from the spec: the 4-byte little-endian header fields of the vector layouts
  (section 6), written and read as unsigned numbers.
\<close>

definition uint32To :: "nat \<Rightarrow> Bytes" where
  "uint32To n = rawBytesLE 4 (int n)"

definition uint32From :: "Bytes \<Rightarrow> nat" where
  "uint32From bs = nat (valueLE bs)"

text \<open>The bytes of \<open>buffer\<close> from position \<open>start\<close> up to, not including, \<open>end\<close>.\<close>

definition slice :: "Bytes \<Rightarrow> nat \<Rightarrow> nat \<Rightarrow> Bytes" where
  "slice buffer start end = take (end - start) (drop start buffer)"

text \<open>
  Modelled from the spec: a vector encodes and decodes its items in order with the inner
  codec; an inner failure is re-raised tagged with the index of the failing item (sections
  4.4 and 7). Each item is decoded from a slice of the buffer, a fresh buffer of its own
  (section 3: no aliasing).
\<close>

fun encodeItems :: "('e \<Rightarrow> error + Bytes) \<Rightarrow> nat \<Rightarrow> 'e list \<Rightarrow> error + Bytes list" where
  "encodeItems enc i [] = Inr []"
| "encodeItems enc i (x # xs) =
     (case enc x of
        Inl e \<Rightarrow> Inl (ItemError i e)
      | Inr b \<Rightarrow> (case encodeItems enc (Suc i) xs of
                    Inl e \<Rightarrow> Inl e
                  | Inr bs \<Rightarrow> Inr (b # bs)))"

fun decodeItems :: "(BytesLike \<Rightarrow> error + 'd) \<Rightarrow> nat \<Rightarrow> Bytes list \<Rightarrow> error + 'd list" where
  "decodeItems dec i [] = Inr []"
| "decodeItems dec i (b # bs) =
     (case dec (freshBytes b) of
        Inl e \<Rightarrow> Inl (ItemError i e)
      | Inr v \<Rightarrow> (case decodeItems dec (Suc i) bs of
                    Inl e \<Rightarrow> Inl e
                  | Inr vs \<Rightarrow> Inr (v # vs)))"

text \<open>
  Modelled from the spec: the fixed-item layout of \<open>vector\<close> (section 4.4), for an inner
  codec of static length \<open>L\<close>. Encoding: the 4-byte little-endian count, then the item
  encodings. Decoding: read the count header (a buffer too short to hold it is a size
  error), verify that the rest of the buffer has exactly \<open>N * L\<close> bytes, then decode \<open>N\<close>
  consecutive chunks of \<open>L\<close> bytes.
\<close>

fun chunks :: "nat \<Rightarrow> nat \<Rightarrow> Bytes \<Rightarrow> Bytes list" where
  "chunks 0 L buffer = []"
| "chunks (Suc n) L buffer = take L buffer # chunks n L (drop L buffer)"

definition fixedItemVec_encode :: "('e, 'd) Codec \<Rightarrow> 'e list \<Rightarrow> error + Bytes" where
  "fixedItemVec_encode itemCodec items =
     (case encodeItems (encode itemCodec) 0 items of
        Inl e \<Rightarrow> Inl e
      | Inr bs \<Rightarrow> Inr (uint32To (length items) @ concat bs))"

definition fixedItemVec_decode :: "('e, 'd) Codec \<Rightarrow> nat \<Rightarrow> Bytes \<Rightarrow> error + 'd list" where
  "fixedItemVec_decode itemCodec L buffer =
     (if length buffer < 4 then Inl (DecodeError 4 (length buffer))
      else
        let N = uint32From (take 4 buffer) in
        if length buffer - 4 \<noteq> N * L then Inl (DecodeError (4 + N * L) (length buffer))
        else decodeItems (decode itemCodec) 0 (chunks N L (drop 4 buffer)))"

text \<open>
  Modelled from the spec: the variable-item layout of \<open>vector\<close> (sections 4.4 and 6), for
  an inner codec without static length. Encoding: the 4-byte total length, then \<open>N + 1\<close>
  offsets (the position of each item and the position one past the last item), then the
  items back to back; the first item starts right after the table, at \<open>4 * (N + 2)\<close>.
\<close>

fun itemOffsets :: "nat \<Rightarrow> Bytes list \<Rightarrow> nat list" where
  "itemOffsets pos [] = [pos]"
| "itemOffsets pos (b # bs) = pos # itemOffsets (pos + length b) bs"

definition dynItemVec_encode :: "('e, 'd) Codec \<Rightarrow> 'e list \<Rightarrow> error + Bytes" where
  "dynItemVec_encode itemCodec items =
     (case encodeItems (encode itemCodec) 0 items of
        Inl e \<Rightarrow> Inl e
      | Inr bs \<Rightarrow>
          let N = length items;
              total = 4 + 4 * (N + 1) + length (concat bs);
              offsets = itemOffsets (4 * (N + 2)) bs
          in Inr (uint32To total @ concat (map uint32To offsets) @ concat bs))"

text \<open>
  Modelled from the spec: decoding the variable-item layout (section 4.4). The total-length
  field must equal the buffer's length. The specification stores no count, so the count is
  what the first offset says: the first offset must be \<open>4 * (count + 2)\<close> for some count,
  that is a multiple of 4 that is at least 8, and the table it announces must lie inside the
  buffer. Then the \<open>count + 1\<close> offsets are read; they must be non-decreasing and the last
  one must equal the total length. Item \<open>i\<close> is decoded from the bytes between offset \<open>i\<close>
  and offset \<open>i + 1\<close>. Every violation is a \<open>DecodeError\<close> with the expected and the
  actual length or offset.
\<close>

definition readOffsets :: "Bytes \<Rightarrow> nat \<Rightarrow> nat list" where
  "readOffsets buffer n = map (\<lambda>i. uint32From (slice buffer (4 + 4 * i) (8 + 4 * i))) [0..<n]"

fun firstDecrease :: "nat list \<Rightarrow> (nat \<times> nat) option" where
  "firstDecrease (a # b # rest) = (if b < a then Some (a, b) else firstDecrease (b # rest))"
| "firstDecrease [a] = None"
| "firstDecrease [] = None"

fun itemRanges :: "nat list \<Rightarrow> (nat \<times> nat) list" where
  "itemRanges (a # b # rest) = (a, b) # itemRanges (b # rest)"
| "itemRanges [a] = []"
| "itemRanges [] = []"

definition dynItemVec_decode :: "('e, 'd) Codec \<Rightarrow> Bytes \<Rightarrow> error + 'd list" where
  "dynItemVec_decode itemCodec buffer =
     (if length buffer < 4 then Inl (DecodeError 4 (length buffer))
      else
        let total = uint32From (take 4 buffer) in
        if total \<noteq> length buffer then Inl (DecodeError total (length buffer))
        else if length buffer < 8 then Inl (DecodeError 8 (length buffer))
        else
          let first = uint32From (slice buffer 4 8) in
          if first < 8 then Inl (DecodeError 8 first)
          else if first mod 4 \<noteq> 0 then Inl (DecodeError (4 * (first div 4)) first)
          else if total < first then Inl (DecodeError total first)
          else
            let count = first div 4 - 2;
                offsets = readOffsets buffer (count + 1)
            in case firstDecrease offsets of
                 Some (a, b) \<Rightarrow> Inl (DecodeError a b)
               | None \<Rightarrow>
                   if last offsets \<noteq> total then Inl (DecodeError total (last offsets))
                   else decodeItems (decode itemCodec) 0
                          (map (\<lambda>(start, end). slice buffer start end) (itemRanges offsets)))"

text \<open>
  The checks that section 4.4 asks of the decoder, for a buffer that holds \<open>count\<close>
  items: the total-length field equals the buffer's length, the \<open>count + 1\<close> offsets are
  non-decreasing, the first offset points just past the header and the offset table, and the
  last offset equals the total length.
\<close>

definition offsetTableValid :: "Bytes \<Rightarrow> nat \<Rightarrow> bool" where
  "offsetTableValid buffer count \<longleftrightarrow>
     (let offsets = readOffsets buffer (count + 1)
      in uint32From (take 4 buffer) = length buffer
         \<and> sorted offsets
         \<and> hd offsets = 4 * (count + 2)
         \<and> last offsets = length buffer)"

text \<open>
  Modelled from the spec: \<open>vector\<close> of \<open>codec.ts\<close> (section 4.4) chooses the layout by
  the inner codec's static length; the static length of the result is always absent. The
  decoders work on the bytes of the buffer they are given.
\<close>

definition vector :: "('e, 'd) Codec \<Rightarrow> ('e list, 'd list) Codec" where
  "vector itemCodec =
     (case byteLength itemCodec of
        Some L \<Rightarrow>
          Codec_from (fixedItemVec_encode itemCodec)
            (\<lambda>buffer. fixedItemVec_decode itemCodec L (contents (bytesFrom buffer))) None
      | None \<Rightarrow>
          Codec_from (dynItemVec_encode itemCodec)
            (\<lambda>buffer. dynItemVec_decode itemCodec (contents (bytesFrom buffer))) None)"

section \<open>The derived codecs of the two modules\<close>

definition Int8Opt :: "(NumLike option, int option) Codec" where
  "Int8Opt = option Int8"

definition Int8Vec :: "(NumLike list, int list) Codec" where
  "Int8Vec = vector Int8"

definition p0_Int8Opt :: "(NumLike option, int option) Codec" where
  "p0_Int8Opt = option p0_Int8"

definition p0_Int8Vec :: "(NumLike list, int list) Codec" where
  "p0_Int8Vec = vector p0_Int8"

section \<open>Two's complement bytes\<close>

lemma length_rawBytesLE [simp]: "length (rawBytesLE k v) = k"
  by (induction k arbitrary: v) simp_all

lemma valueLE_rawBytesLE: "valueLE (rawBytesLE k v) = v mod 256 ^ k"
proof (induction k arbitrary: v)
  case 0
  show ?case by simp
next
  case (Suc k)
  have "uint (word_of_int v :: byte) = v mod 256"
    by (simp add: uint_word_of_int)
  moreover have "v mod (256 * 256 ^ k) = 256 * (v div 256 mod 256 ^ k) + v mod 256"
    by (rule zmod_zmult2_eq) simp
  ultimately show ?case
    using Suc.IH [of "v div 256"] by simp
qed

lemma rawBytesLE_cong:
  "a mod 256 ^ k = b mod 256 ^ k \<Longrightarrow> rawBytesLE k a = rawBytesLE k b"
proof (induction k arbitrary: a b)
  case 0
  show ?case by simp
next
  case (Suc k)
  have split: "\<And>v::int. v mod (256 * 256 ^ k) = 256 * (v div 256 mod 256 ^ k) + v mod 256"
    by (rule zmod_zmult2_eq) simp
  from Suc.prems have eq:
    "256 * (a div 256 mod 256 ^ k) + a mod 256 = 256 * (b div 256 mod 256 ^ k) + b mod 256"
    by (simp add: split)
  have lo: "a mod 256 = b mod 256"
  proof -
    have "(256 * (a div 256 mod 256 ^ k) + a mod 256) mod 256 = a mod 256" by simp
    moreover have "(256 * (b div 256 mod 256 ^ k) + b mod 256) mod 256 = b mod 256" by simp
    ultimately show ?thesis using eq by metis
  qed
  with eq have hi: "a div 256 mod 256 ^ k = b div 256 mod 256 ^ k" by simp
  have "(word_of_int a :: byte) = word_of_int b"
    using lo by (simp add: word_of_int_eq_iff take_bit_eq_mod)
  with Suc.IH [OF hi] show ?case by simp
qed

lemma wrapSigned_mod: "wrapSigned w i mod 2 ^ w = i mod 2 ^ w"
  by (simp add: wrapSigned_def Let_def)

lemma wrapSigned_id: "0 < w \<Longrightarrow> inRange w n \<Longrightarrow> wrapSigned w n = n"
proof -
  assume w: "0 < w" and r: "inRange w n"
  have p: "(2::int) ^ w = 2 * 2 ^ (w - 1)"
    using w by (cases w) simp_all
  show ?thesis
  proof (cases "0 \<le> n")
    case True
    then have "n mod 2 ^ w = n" using r p by (simp add: inRange_def)
    then show ?thesis using r by (simp add: wrapSigned_def inRange_def)
  next
    case False
    then have "n mod 2 ^ w = n + 2 ^ w"
      using r p by (intro int_mod_pos_eq [of n "2 ^ w" "-1"]) (simp_all add: inRange_def)
    then show ?thesis using False r p by (simp add: wrapSigned_def inRange_def)
  qed
qed

lemma Number_exact: "\<bar>n\<bar> < 2 ^ 53 \<Longrightarrow> Number n = Finite n"
proof -
  assume a: "\<bar>n\<bar> < 2 ^ 53"
  have "(2::int) ^ 53 < 2 ^ 1024" by simp
  with a have "n < 2 ^ 1024" and "- (2 ^ 1024) < n" by linarith+
  moreover have "roundToDouble n = n" using a by (simp add: roundToDouble_def)
  ultimately show ?thesis by (simp add: Number_def)
qed





lemma rawBytesLE_2: "rawBytesLE 2 v = [word_of_int v, word_of_int (v div 256)]"
  by (simp add: numeral_2_eq_2)

lemma rawBytesLE_4:
  "rawBytesLE 4 v = [word_of_int v, word_of_int (v div 256), word_of_int (v div 256 div 256),
     word_of_int (v div 256 div 256 div 256)]"
proof -
  have "(4::nat) = Suc (Suc (Suc (Suc 0)))" by simp
  then show ?thesis by (simp only: rawBytesLE.simps)
qed

lemma rawBytesLE_8:
  "rawBytesLE 8 v = [word_of_int v, word_of_int (v div 256), word_of_int (v div 256 div 256),
     word_of_int (v div 256 div 256 div 256), word_of_int (v div 256 div 256 div 256 div 256),
     word_of_int (v div 256 div 256 div 256 div 256 div 256),
     word_of_int (v div 256 div 256 div 256 div 256 div 256 div 256),
     word_of_int (v div 256 div 256 div 256 div 256 div 256 div 256 div 256)]"
proof -
  have "(8::nat) = Suc (Suc (Suc (Suc (Suc (Suc (Suc (Suc 0)))))))" by simp
  then show ?thesis by (simp only: rawBytesLE.simps)
qed

text \<open>Byte \<open>i\<close> of the little-endian bytes is the \<open>i\<close>-th base-256 digit.\<close>

lemma rawBytesLE_nth: "i < k \<Longrightarrow> rawBytesLE k v ! i = word_of_int (v div 256 ^ i)"
proof (induction k arbitrary: v i)
  case 0
  then show ?case by simp
next
  case (Suc k)
  show ?case
  proof (cases i)
    case 0
    then show ?thesis by simp
  next
    case (Suc j)
    have "v div (256 * 256 ^ j) = v div 256 div 256 ^ j"
      by (rule zdiv_zmult2_eq) simp
    with Suc Suc.prems Suc.IH [of j "v div 256"] show ?thesis by simp
  qed
qed

lemma NumericToRawBytes_nth:
  assumes "i < k"
  shows "NumericToRawBytes k v le ! (if le then i else k - 1 - i) = word_of_int (v div 256 ^ i)"
proof (cases le)
  case True
  with assms show ?thesis by (simp add: NumericToRawBytes_def rawBytesLE_nth)
next
  case False
  have "rev (rawBytesLE k v) ! (k - 1 - i) = rawBytesLE k v ! i"
    using assms by (simp add: rev_nth Suc_diff_Suc)
  with False assms show ?thesis by (simp add: NumericToRawBytes_def rawBytesLE_nth)
qed

section \<open>Evaluating the conversion to a double\<close>

lemma bitLength_One: "bitLength (Suc 0) = Suc 0"
proof -
  have "bitLength 0 = 0" by (subst bitLength.simps) simp
  then show ?thesis by (subst bitLength.simps) simp
qed

lemma bitLength_double: "0 < x \<Longrightarrow> bitLength (x + x) = Suc (bitLength x)"
  by (subst bitLength.simps) simp

lemma bitLength_double_1: "bitLength (x + x + 1) = Suc (bitLength x)"
  by (subst bitLength.simps) simp

lemma bitLength_Bit0: "bitLength (numeral (Num.Bit0 k)) = Suc (bitLength (numeral k))"
  using bitLength_double [of "numeral k"] by (simp only: numeral_Bit0 zero_less_numeral)

lemma bitLength_Bit1: "bitLength (numeral (Num.Bit1 k)) = Suc (bitLength (numeral k))"
  using bitLength_double_1 [of "numeral k"] by (simp only: numeral_Bit1)

lemmas bitLength_numeral = bitLength_One bitLength_Bit0 bitLength_Bit1

lemma Number_exact_53: "\<bar>n\<bar> \<le> 2 ^ 53 \<Longrightarrow> Number n = Finite n"
proof -
  assume a: "\<bar>n\<bar> \<le> 2 ^ 53"
  then consider "\<bar>n\<bar> < 2 ^ 53" | "n = 2 ^ 53" | "n = - (2 ^ 53)" by fastforce
  then show ?thesis
  proof cases
    case 1
    then show ?thesis by (rule Number_exact)
  next
    case 2
    have "roundToDouble 9007199254740992 = 9007199254740992"
      by (simp add: roundToDouble_def bitLength_numeral)
    with 2 show ?thesis by (simp add: Number_def)
  next
    case 3
    have "roundToDouble (- 9007199254740992) = - 9007199254740992"
      by (simp add: roundToDouble_def bitLength_numeral)
    with 3 show ?thesis by (simp add: Number_def)
  qed
qed

lemma Number_exact_above_53: "Number 9007199254740994 = Finite 9007199254740994"
proof -
  have "roundToDouble 9007199254740994 = 9007199254740994"
    by (simp add: roundToDouble_def bitLength_numeral)
  then show ?thesis by (simp add: Number_def)
qed

lemma Number_above_53: "Number 9007199254740993 = Finite 9007199254740992"
proof -
  have "roundToDouble 9007199254740993 = 9007199254740992"
    by (simp add: roundToDouble_def bitLength_numeral)
  then show ?thesis by (simp add: Number_def)
qed

section \<open>What the primitive codecs compute\<close>

lemma pow256: "(256::int) ^ k = 2 ^ (8 * k)"
  by (simp add: power_mult)

lemma SetViewValue_whole:
  "length view = k \<Longrightarrow> SetViewValue view 0 le k v = Inr (NumericToRawBytes k v le)"
  by (simp add: SetViewValue_def)

lemma length_NumericToRawBytes [simp]: "length (NumericToRawBytes k v le) = k"
  by (simp add: NumericToRawBytes_def Let_def)

lemma unsignedValue_NumericToRawBytes:
  "unsignedValue le (NumericToRawBytes k v le) = v mod 2 ^ (8 * k)"
  by (simp add: unsignedValue_def NumericToRawBytes_def valueLE_rawBytesLE pow256)

lemma RawBytesToNumeric_NumericToRawBytes:
  "RawBytesToNumeric k (NumericToRawBytes k v le) le = wrapSigned (8 * k) v"
  by (simp add: RawBytesToNumeric_def NumericToRawBytes_def valueLE_rawBytesLE pow256
      wrapSigned_def Let_def)

lemma NumericToRawBytes_cong:
  "a mod 2 ^ (8 * k) = b mod 2 ^ (8 * k) \<Longrightarrow> NumericToRawBytes k a le = NumericToRawBytes k b le"
  using rawBytesLE_cong [of a k b] by (simp add: NumericToRawBytes_def pow256)

lemma primitive_width:
  "(w, le, c) \<in> set primitives \<Longrightarrow> w = 8 \<or> w = 16 \<or> w = 32 \<or> w = 64"
  by (auto simp: primitives_def signed_primitives_def p0_primitives_def)

lemma primitive_encode:
  "(w, le, c) \<in> set primitives \<Longrightarrow>
     encode c n = Inr (NumericToRawBytes (w div 8) (encodedInt w n) le)"
  by (auto simp: primitives_def signed_primitives_def p0_primitives_def encodedInt_def
      Int8_def Int16LE_def Int16BE_def Int32LE_def Int32BE_def Int64LE_def Int64BE_def
      int16Number_def int32Number_def int64_def
      p0_Int8_def p0_Int16LE_def p0_Int16BE_def p0_Int32LE_def p0_Int32BE_def
      p0_Int64LE_def p0_Int64BE_def p0_int16Number_def p0_int32Number_def p0_int64_def
      Codec_from_def Uint8Array_def setInt8_def setInt16_def setInt32_def setBigInt64_def
      SetViewValue_whole)

lemma contents_freshBytes [simp]: "contents (freshBytes bs) = bs"
  by (simp add: freshBytes_def)

lemma arrayBuffer_freshBytes [simp]: "arrayBuffer (freshBytes bs) = bs"
  by (simp add: freshBytes_def arrayBuffer_def)

lemma length_arrayBuffer: "length (contents b) \<le> length (arrayBuffer b)"
  by (simp add: arrayBuffer_def)

lemma primitive_decode:
  "(w, le, c) \<in> set primitives \<Longrightarrow>
     decode c b =
       (if length (contents b) \<noteq> w div 8
        then Inl (DecodeError (w div 8) (length (contents b)))
        else GetViewValue (arrayBuffer b) 0 le (w div 8))"
  by (auto simp: primitives_def signed_primitives_def p0_primitives_def fixedBytesFrom_def
      Int8_def Int16LE_def Int16BE_def Int32LE_def Int32BE_def Int64LE_def Int64BE_def
      int16Number_def int32Number_def int64_def
      p0_Int8_def p0_Int16LE_def p0_Int16BE_def p0_Int32LE_def p0_Int32BE_def
      p0_Int64LE_def p0_Int64BE_def p0_int16Number_def p0_int32Number_def p0_int64_def
      Codec_from_def bytesFrom_def getInt8_def getInt16_def getInt32_def getBigInt64_def)

lemma primitive_decode_sized:
  assumes "(w, le, c) \<in> set primitives" "length (contents b) = w div 8"
  shows "decode c b = Inr (RawBytesToNumeric (w div 8) (take (w div 8) (arrayBuffer b)) le)"
  using assms length_arrayBuffer [of b] by (simp add: primitive_decode GetViewValue_def)

lemma primitive_decode_exact:
  "(w, le, c) \<in> set primitives \<Longrightarrow> length buf = w div 8 \<Longrightarrow>
     decode c (freshBytes buf) = Inr (RawBytesToNumeric (w div 8) buf le)"
  by (simp add: primitive_decode_sized)

lemma encodedInt_mod:
  assumes "w = 64 \<or> Number n = Finite n"
  shows "encodedInt w n mod 2 ^ w = n mod 2 ^ w"
proof (cases "w = 64")
  case True
  then show ?thesis
    using wrapSigned_mod [of 64 n] by (simp add: encodedInt_def ToBigIntN_def numFrom_def)
next
  case False
  with assms show ?thesis
    by (simp add: encodedInt_def wrapSigned_mod)
qed

lemma inRange_Number:
  assumes "w \<le> 53" "inRange w n"
  shows "Number n = Finite n"
proof (rule Number_exact)
  have "(2::int) ^ (w - 1) \<le> 2 ^ 52"
    using assms(1) by (intro power_increasing) simp_all
  moreover have "- (2 ^ (w - 1)) \<le> n" "n < 2 ^ (w - 1)"
    using assms(2) by (simp_all add: inRange_def)
  ultimately have "- (2 ^ 52) \<le> n" "n < 2 ^ 52" by linarith+
  then show "\<bar>n\<bar> < 2 ^ 53" by simp
qed

lemma encodedInt_inRange:
  assumes "(w, le, c) \<in> set primitives" "inRange w n"
  shows "encodedInt w n = n"
proof (cases "w = 64")
  case True
  then show ?thesis
    using assms(2) wrapSigned_id [of 64 n]
    by (simp add: encodedInt_def ToBigIntN_def numFrom_def)
next
  case False
  with primitive_width [OF assms(1)] have w: "0 < w" "w \<le> 53" by auto
  with False assms(2) show ?thesis
    by (simp add: encodedInt_def inRange_Number wrapSigned_id)
qed




section \<open>Round trip of the primitive codecs\<close>

text \<open>
  C1: for every primitive signed-integer codec (of either module), of width 8, 16, 32 or 64
  bits and either byte order, and for every integer \<open>n\<close> in the signed range of that
  width, decoding the encoding of \<open>n\<close> gives \<open>n\<close> back.
\<close>

theorem signed_codec_roundtrip:
  assumes "(w, le, c) \<in> set primitives" "inRange w n"
  shows "roundTrip c n = Inr n"
proof -
  from primitive_width [OF assms(1)] have w: "0 < w" "8 * (w div 8) = w" by auto
  have "roundTrip c n = Inr (wrapSigned (8 * (w div 8)) (encodedInt w n))"
    using assms(1)
    by (simp add: roundTrip_def primitive_encode primitive_decode_exact
        RawBytesToNumeric_NumericToRawBytes)
  then show ?thesis
    using w assms by (simp add: encodedInt_inRange wrapSigned_id)
qed

theorem signed_codec_roundtrip_witness:
  "(64, False, p0_Int64BE) \<in> set primitives \<and> inRange 64 (- 9223372036854775808)
   \<and> roundTrip p0_Int64BE (- 9223372036854775808) = Inr (- 9223372036854775808)"
  using signed_codec_roundtrip [of 64 False p0_Int64BE "- 9223372036854775808"]
  by (simp add: primitives_def signed_primitives_def p0_primitives_def inRange_def)

section \<open>Byte-exact encodings\<close>

lemma Int64BE_encode_minus_2:
  "encode Int64BE (- 2) = Inr [0xFF, 0xFF, 0xFF, 0xFF, 0xFF, 0xFF, 0xFF, 0xFE]"
  by (simp add: Int64BE_def int64_def Codec_from_def Uint8Array_def setBigInt64_def
      SetViewValue_def NumericToRawBytes_def ToBigIntN_def numFrom_def wrapSigned_def
      rawBytesLE_8)

text \<open>
  C8: the primitive encodings are byte-exact two's complement in the declared byte order.
  For every primitive signed-integer codec (of either module) of width \<open>w\<close> and every
  \<open>n\<close> in its signed range, the encoding has \<open>w / 8\<close> bytes and the byte of weight
  \<open>256^i\<close> of the two's complement of \<open>n\<close> stands at position \<open>i\<close> in a little-endian
  codec and at position \<open>w / 8 - 1 - i\<close> in a big-endian one. In particular \<open>Int16LE\<close>
  encodes 1 as \<open>01 00\<close>, \<open>Int16BE\<close> encodes 1 as \<open>00 01\<close>, and \<open>Int32LE\<close> encodes -1
  as \<open>FF FF FF FF\<close>, in both modules.
\<close>

theorem byte_exact_encodings:
  "((w, le, c) \<in> set primitives \<and> inRange w n \<longrightarrow>
      (\<exists>bs. encode c n = Inr bs \<and> length bs = w div 8
         \<and> (\<forall>i < w div 8.
               bs ! (if le then i else w div 8 - 1 - i) = word_of_int (n div 256 ^ i))))
   \<and> encode Int16LE 1 = Inr [0x01, 0x00]
   \<and> encode Int16BE 1 = Inr [0x00, 0x01]
   \<and> encode Int32LE (- 1) = Inr [0xFF, 0xFF, 0xFF, 0xFF]
   \<and> encode p0_Int16LE 1 = Inr [0x01, 0x00]
   \<and> encode p0_Int16BE 1 = Inr [0x00, 0x01]
   \<and> encode p0_Int32LE (- 1) = Inr [0xFF, 0xFF, 0xFF, 0xFF]"
proof -
  have general: "\<exists>bs. encode c n = Inr bs \<and> length bs = w div 8
      \<and> (\<forall>i < w div 8.
            bs ! (if le then i else w div 8 - 1 - i) = word_of_int (n div 256 ^ i))"
    if "(w, le, c) \<in> set primitives" "inRange w n"
    using that by (simp add: primitive_encode encodedInt_inRange NumericToRawBytes_nth)
  have examples: "encode Int16LE 1 = Inr [0x01, 0x00]
      \<and> encode Int16BE 1 = Inr [0x00, 0x01]
      \<and> encode Int32LE (- 1) = Inr [0xFF, 0xFF, 0xFF, 0xFF]
      \<and> encode p0_Int16LE 1 = Inr [0x01, 0x00]
      \<and> encode p0_Int16BE 1 = Inr [0x00, 0x01]
      \<and> encode p0_Int32LE (- 1) = Inr [0xFF, 0xFF, 0xFF, 0xFF]"
    by (simp add: Int16LE_def Int16BE_def Int32LE_def int16Number_def int32Number_def
        p0_Int16LE_def p0_Int16BE_def p0_Int32LE_def p0_int16Number_def p0_int32Number_def
        Codec_from_def Uint8Array_def setInt16_def setInt32_def SetViewValue_def
        NumericToRawBytes_def Number_def roundToDouble_def wrapSigned_def
        rawBytesLE_2 rawBytesLE_4)
  from general examples show ?thesis by blast
qed

theorem byte_exact_encodings_witness:
  "(64, False, Int64BE) \<in> set primitives \<and> inRange 64 (- 2)
   \<and> encode Int64BE (- 2) = Inr [0xFF, 0xFF, 0xFF, 0xFF, 0xFF, 0xFF, 0xFF, 0xFE]
   \<and> (\<exists>bs. encode Int64BE (- 2) = Inr bs \<and> length bs = 64 div 8
          \<and> (\<forall>i < 64 div 8. bs ! (64 div 8 - 1 - i) = word_of_int (- 2 div 256 ^ i)))"
  using byte_exact_encodings [of 64 False Int64BE "- 2"] Int64BE_encode_minus_2
  by (simp add: primitives_def signed_primitives_def inRange_def)

section \<open>Encoding never fails\<close>

lemma Int8_encode_128: "encode Int8 128 = Inr [0x80]"
  by (simp add: Int8_def Codec_from_def Uint8Array_def setInt8_def SetViewValue_def
      NumericToRawBytes_def Number_def roundToDouble_def wrapSigned_def)

lemma p0_Int8_encode_128: "encode p0_Int8 128 = Inr [0x80]"
  by (simp add: p0_Int8_def Codec_from_def setInt8_def SetViewValue_def
      NumericToRawBytes_def Number_def roundToDouble_def wrapSigned_def)

text \<open>
  C3, as stated, fails: no encoder checks the range. \<open>Int8\<close> encodes 128, which lies
  outside -128..127, and returns the byte \<open>80\<close> instead of raising a range error.
\<close>

theorem encode_out_of_range_succeeds:
  "\<not> inRange 8 128 \<and> encode Int8 128 = Inr [0x80] \<and> encode p0_Int8 128 = Inr [0x80]"
  by (simp add: Int8_encode_128 p0_Int8_encode_128 inRange_def)

text \<open>
  C3, amended: for every primitive signed-integer codec of width \<open>w\<close>, encoding succeeds
  for every integer \<open>n\<close>, inside the signed range or not, and writes exactly \<open>w / 8\<close>
  bytes; for \<open>n\<close> inside the range these bytes are the two's complement of \<open>n\<close> in the
  codec's byte order (their unsigned value is \<open>n\<close> when \<open>n\<close> is not negative and
  \<open>n + 2^w\<close> when it is).
\<close>

theorem encode_total_in_range_exact:
  assumes "(w, le, c) \<in> set primitives"
  shows "\<exists>bs. encode c n = Inr bs \<and> length bs = w div 8
           \<and> (inRange w n \<longrightarrow> unsignedValue le bs = (if 0 \<le> n then n else n + 2 ^ w))"
proof -
  from primitive_width [OF assms] have w: "0 < w" "8 * (w div 8) = w" by auto
  let ?bs = "NumericToRawBytes (w div 8) (encodedInt w n) le"
  have enc: "encode c n = Inr ?bs" by (rule primitive_encode [OF assms])
  have "unsignedValue le ?bs = (if 0 \<le> n then n else n + 2 ^ w)" if r: "inRange w n"
  proof -
    have p: "(2::int) ^ w = 2 * 2 ^ (w - 1)"
      using w(1) by (cases w) simp_all
    have "unsignedValue le ?bs = n mod 2 ^ w"
      using w r assms by (simp add: unsignedValue_NumericToRawBytes encodedInt_inRange)
    also have "\<dots> = (if 0 \<le> n then n else n + 2 ^ w)"
    proof (cases "0 \<le> n")
      case True
      then show ?thesis using r p by (simp add: inRange_def)
    next
      case False
      then have "n mod 2 ^ w = n + 2 ^ w"
        using r p by (intro int_mod_pos_eq [of n "2 ^ w" "-1"]) (simp_all add: inRange_def)
      with False show ?thesis by simp
    qed
    finally show ?thesis .
  qed
  with enc show ?thesis by simp
qed

theorem encode_total_in_range_exact_witness:
  "(16, False, Int16BE) \<in> set primitives \<and> inRange 16 (- 2)
   \<and> (\<exists>bs. encode Int16BE (- 2) = Inr bs \<and> length bs = 2
          \<and> unsignedValue False bs = 65534)"
  using encode_total_in_range_exact [of 16 False Int16BE "- 2"]
  by (simp add: primitives_def signed_primitives_def inRange_def)

section \<open>Out-of-range inputs wrap around\<close>

text \<open>
  C9, as stated, fails for the codecs of 8, 16 and 32 bits: they convert the input with
  \<open>Number\<close>, which rounds an integer of more than 53 significant bits. The bigint
  \<open>2^53 + 1\<close> becomes \<open>2^53\<close>, so \<open>Int8\<close> writes the byte \<open>00\<close>, whereas
  \<open>2^53 + 1\<close> reduced modulo \<open>2^8\<close> is 1.
\<close>

theorem Int8_encode_rounds_large_input:
  "encode Int8 9007199254740993 = Inr [0x00]
   \<and> unsignedValue True [0x00] \<noteq> 9007199254740993 mod 2 ^ 8"
  by (simp add: Int8_def Codec_from_def Uint8Array_def setInt8_def SetViewValue_def
      NumericToRawBytes_def Number_above_53 wrapSigned_def unsignedValue_def)

text \<open>
  C9, amended: for every primitive signed-integer codec of width \<open>w\<close> and every integer
  input \<open>n\<close>, also outside the signed range, encoding succeeds and returns the \<open>w / 8\<close>
  bytes of the integer that the codec converts \<open>n\<close> to, reduced modulo \<open>2^w\<close>. For every
  \<open>n\<close> that is converted exactly (every \<open>n\<close> for the 64-bit codecs; for the others
  every \<open>n\<close> that is a double, such as every \<open>n\<close> of absolute value at most \<open>2^53\<close>,
  or \<open>2^53 + 2\<close>) these are the bytes of \<open>n\<close> reduced modulo \<open>2^w\<close>, and decoding them
  gives the signed representative of \<open>n\<close> modulo \<open>2^w\<close>: \<open>Int8\<close> encodes 128 as the
  byte \<open>80\<close>, which decodes to -128.
\<close>

theorem encode_wraps_modulo:
  assumes "(w, le, c) \<in> set primitives"
  shows "\<exists>bs. encode c n = Inr bs \<and> length bs = w div 8
           \<and> unsignedValue le bs = encodedInt w n mod 2 ^ w
           \<and> (w = 64 \<or> Number n = Finite n \<longrightarrow>
                unsignedValue le bs = n mod 2 ^ w
                \<and> decode c (freshBytes bs) = Inr (wrapSigned w n))"
proof -
  from primitive_width [OF assms] have w: "0 < w" "8 * (w div 8) = w" by auto
  let ?bs = "NumericToRawBytes (w div 8) (encodedInt w n) le"
  have enc: "encode c n = Inr ?bs" by (rule primitive_encode [OF assms])
  have u: "unsignedValue le ?bs = encodedInt w n mod 2 ^ w"
    using w by (simp add: unsignedValue_NumericToRawBytes)
  have ex: "unsignedValue le ?bs = n mod 2 ^ w
      \<and> decode c (freshBytes ?bs) = Inr (wrapSigned w n)"
    if "w = 64 \<or> Number n = Finite n"
  proof -
    have m: "encodedInt w n mod 2 ^ w = n mod 2 ^ w"
      using that by (rule encodedInt_mod)
    have "decode c (freshBytes ?bs) = Inr (wrapSigned w n)"
      using assms w m
      by (simp add: primitive_decode_exact RawBytesToNumeric_NumericToRawBytes wrapSigned_def)
    with u m show ?thesis by simp
  qed
  show ?thesis
  proof (intro exI [of _ ?bs] conjI impI)
    show "encode c n = Inr ?bs" by (rule enc)
    show "length ?bs = w div 8" by simp
    show "unsignedValue le ?bs = encodedInt w n mod 2 ^ w" by (rule u)
  next
    assume "w = 64 \<or> Number n = Finite n"
    from ex [OF this] show "unsignedValue le ?bs = n mod 2 ^ w" ..
  next
    assume "w = 64 \<or> Number n = Finite n"
    from ex [OF this] show "decode c (freshBytes ?bs) = Inr (wrapSigned w n)" ..
  qed
qed

theorem encode_wraps_modulo_witness:
  "(8, True, Int8) \<in> set primitives
   \<and> (8 = (64::nat) \<or> Number 128 = Finite 128)
   \<and> encode Int8 128 = Inr [0x80] \<and> unsignedValue True [0x80] = 128 mod 2 ^ 8
   \<and> decode Int8 (freshBytes [0x80]) = Inr (- 128)
   \<and> (8 = (64::nat) \<or> Number 9007199254740994 = Finite 9007199254740994)
   \<and> (\<exists>bs. encode Int8 9007199254740994 = Inr bs
          \<and> unsignedValue True bs = 9007199254740994 mod 2 ^ 8)"
  using encode_wraps_modulo [of 8 True Int8 128]
    encode_wraps_modulo [of 8 True Int8 9007199254740994]
  by (auto simp: primitives_def signed_primitives_def Int8_encode_128 wrapSigned_def
      unsignedValue_def Number_exact Number_exact_above_53)

section \<open>Buffer sizes on decoding\<close>

lemma signed_byteLength:
  "(w, le, c) \<in> set signed_primitives \<Longrightarrow> byteLength c = Some (w div 8)"
  by (auto simp: signed_primitives_def
      Int8_def Int16LE_def Int16BE_def Int32LE_def Int32BE_def Int64LE_def Int64BE_def
      int16Number_def int32Number_def int64_def Codec_from_def)

lemma p0_byteLength:
  "(w, le, c) \<in> set p0_primitives \<Longrightarrow> w \<noteq> 8 \<Longrightarrow> byteLength c = Some (w div 8)"
  by (auto simp: p0_primitives_def
      p0_Int16LE_def p0_Int16BE_def p0_Int32LE_def p0_Int32BE_def
      p0_Int64LE_def p0_Int64BE_def p0_int16Number_def p0_int32Number_def p0_int64_def
      Codec_from_def)

lemma primitive_byteLength:
  "(w, le, c) \<in> set primitives \<Longrightarrow> byteLength c = Some L \<Longrightarrow> L = w div 8"
  by (auto simp: primitives_def signed_primitives_def p0_primitives_def
      Int8_def Int16LE_def Int16BE_def Int32LE_def Int32BE_def Int64LE_def Int64BE_def
      int16Number_def int32Number_def int64_def
      p0_Int8_def p0_Int16LE_def p0_Int16BE_def p0_Int32LE_def p0_Int32BE_def
      p0_Int64LE_def p0_Int64BE_def p0_int16Number_def p0_int32Number_def p0_int64_def
      Codec_from_def)

lemma Int32LE_decode_examples:
  "decode Int32LE (freshBytes [1, 2, 3]) = Inl (DecodeError 4 3)"
  "decode Int32LE (freshBytes [1, 0, 0, 0, 9]) = Inl (DecodeError 4 5)"
  "decode Int32LE (freshBytes [1, 0, 0, 0]) = Inr 1"
  "decode Int32LE \<lparr>preceding = [9, 9, 9, 9], contents = [1, 0, 0, 0], trailing = []\<rparr>
     = Inr 151587081"
  "decode p0_Int32LE (freshBytes [1, 2, 3]) = Inl (DecodeError 4 3)"
  by (simp_all add: Int32LE_def int32Number_def p0_Int32LE_def p0_int32Number_def
      Codec_from_def bytesFrom_def fixedBytesFrom_def freshBytes_def arrayBuffer_def
      getInt32_def GetViewValue_def RawBytesToNumeric_def)

text \<open>
  C2: for every primitive signed-integer codec of width \<open>w\<close> (of either module, whose
  static length, where one is declared, is \<open>w / 8\<close>), decoding fails exactly when the
  length of the buffer differs from \<open>w / 8\<close>, and the failure is the size error that
  carries the expected size \<open>w / 8\<close> and the actual one. In \<open>molecule/signed.ts\<close> the
  check is that of the codec's static length, in the second module that of
  \<open>fixedBytesFrom\<close>. In particular \<open>Int32LE\<close> on a 3-byte buffer fails with expected 4,
  actual 3.
\<close>

theorem decode_checks_size:
  assumes "(w, le, c) \<in> set primitives"
  shows "(length (contents b) \<noteq> w div 8 \<longrightarrow>
            decode c b = Inl (DecodeError (w div 8) (length (contents b))))
       \<and> (length (contents b) = w div 8 \<longrightarrow> (\<exists>v. decode c b = Inr v))
       \<and> (\<forall>L. byteLength c = Some L \<longrightarrow> L = w div 8)"
proof (intro conjI impI allI)
  assume "length (contents b) \<noteq> w div 8"
  then show "decode c b = Inl (DecodeError (w div 8) (length (contents b)))"
    using assms by (simp add: primitive_decode)
next
  assume "length (contents b) = w div 8"
  then show "\<exists>v. decode c b = Inr v"
    using assms by (simp add: primitive_decode_sized)
next
  fix L assume "byteLength c = Some L"
  then show "L = w div 8" using assms by (rule primitive_byteLength [rotated])
qed

theorem decode_checks_size_witness:
  "(32, True, Int32LE) \<in> set primitives
   \<and> length (contents (freshBytes [1, 2, 3])) \<noteq> 32 div 8
   \<and> decode Int32LE (freshBytes [1, 2, 3]) = Inl (DecodeError 4 3)
   \<and> length (contents (freshBytes [1, 0, 0, 0])) = 32 div 8
   \<and> decode Int32LE (freshBytes [1, 0, 0, 0]) = Inr 1
   \<and> byteLength Int32LE = Some 4"
  using decode_checks_size [of 32 True Int32LE "freshBytes [1, 2, 3]"]
    decode_checks_size [of 32 True Int32LE "freshBytes [1, 0, 0, 0]"]
  by (simp add: primitives_def signed_primitives_def Int32LE_decode_examples
      signed_byteLength [of 32 True Int32LE, simplified])




section \<open>Static lengths\<close>

text \<open>
  Every primitive codec writes exactly \<open>w / 8\<close> bytes, and all of them but one declare that
  length.
\<close>

lemma primitive_encode_length:
  "(w, le, c) \<in> set primitives \<Longrightarrow> \<exists>bs. encode c n = Inr bs \<and> length bs = w div 8"
  by (simp add: primitive_encode)

text \<open>
  C7 fails for the \<open>Int8\<close> of the second module: it calls \<open>Codec.from\<close> without a
  \<open>byteLength\<close>, so its static length is absent although it always writes one byte. The
  \<open>Int8\<close> of \<open>molecule/signed.ts\<close> passes \<open>byteLength: 1\<close>.
\<close>

theorem p0_Int8_declares_no_byteLength:
  "byteLength p0_Int8 = None \<and> encode p0_Int8 5 = Inr [5] \<and> byteLength Int8 = Some 1"
  by (simp add: p0_Int8_def Int8_def Codec_from_def setInt8_def SetViewValue_def
      NumericToRawBytes_def Number_def roundToDouble_def wrapSigned_def)

section \<open>Evaluating the one-byte codecs\<close>

lemma Int8_encode_small:
  "\<bar>n\<bar> < 2 ^ 53 \<Longrightarrow> encode Int8 n = Inr [word_of_int n]"
  "\<bar>n\<bar> < 2 ^ 53 \<Longrightarrow> encode p0_Int8 n = Inr [word_of_int n]"
proof -
  assume a: "\<bar>n\<bar> < 2 ^ 53"
  have "(word_of_int (wrapSigned 8 n) :: byte) = word_of_int n"
    using wrapSigned_mod [of 8 n]
    by (simp only: word_of_int_eq_iff take_bit_eq_mod) simp
  then show "encode Int8 n = Inr [word_of_int n]" "encode p0_Int8 n = Inr [word_of_int n]"
    using a by (simp_all add: Int8_def p0_Int8_def Codec_from_def Uint8Array_def setInt8_def
        SetViewValue_def NumericToRawBytes_def Number_exact)
qed

lemma Int8_decode_one:
  "decode Int8 (freshBytes [b]) = Inr (if uint b \<ge> 128 then uint b - 256 else uint b)"
  "decode p0_Int8 (freshBytes [b]) = Inr (if uint b \<ge> 128 then uint b - 256 else uint b)"
  by (simp_all add: Int8_def p0_Int8_def Codec_from_def bytesFrom_def fixedBytesFrom_def
      getInt8_def GetViewValue_def RawBytesToNumeric_def)

lemma Int8Opt_byteLength: "byteLength Int8Opt = None" "byteLength p0_Int8Opt = None"
  by (simp_all add: Int8Opt_def p0_Int8Opt_def option_def Codec_from_def)

lemma Int8Opt_encode:
  "encode Int8Opt None = Inr []"
  "\<bar>n\<bar> < 2 ^ 53 \<Longrightarrow> encode Int8Opt (Some n) = Inr [word_of_int n]"
  "encode p0_Int8Opt None = Inr []"
  "\<bar>n\<bar> < 2 ^ 53 \<Longrightarrow> encode p0_Int8Opt (Some n) = Inr [word_of_int n]"
  by (simp_all add: Int8Opt_def p0_Int8Opt_def option_def Codec_from_def Int8_encode_small)

lemma Int8Opt_decode:
  "decode Int8Opt (freshBytes []) = Inr None"
  "decode Int8Opt (freshBytes [b]) =
     Inr (Some (if uint b \<ge> 128 then uint b - 256 else uint b))"
  "decode p0_Int8Opt (freshBytes []) = Inr None"
  "decode p0_Int8Opt (freshBytes [b]) =
     Inr (Some (if uint b \<ge> 128 then uint b - 256 else uint b))"
  by (simp_all add: Int8Opt_def p0_Int8Opt_def option_def Codec_from_def Int8_decode_one)

section \<open>The option combinator\<close>

text \<open>
  C6: for the option combinator over any inner codec, absent encodes to the empty buffer,
  a present value encodes as the inner codec encodes it, an empty buffer decodes to absent,
  and any non-empty buffer decodes to the present result of the inner decoder on that same
  buffer, an inner failure being passed on unchanged.
\<close>

theorem option_codec_behaviour:
  "encode (option c) None = Inr []
   \<and> encode (option c) (Some v) = encode c v
   \<and> decode (option c) (freshBytes []) = Inr None
   \<and> (contents buffer = [] \<longrightarrow> decode (option c) buffer = Inr None)
   \<and> (contents buffer \<noteq> [] \<longrightarrow>
        decode (option c) buffer =
          (case decode c buffer of Inl e \<Rightarrow> Inl e | Inr x \<Rightarrow> Inr (Some x)))"
  by (simp add: option_def Codec_from_def)

theorem option_codec_behaviour_witness:
  "contents (freshBytes [5]) \<noteq> [] \<and> contents (freshBytes [1, 2]) \<noteq> []
   \<and> contents (freshBytes []) = []
   \<and> encode Int8Opt None = Inr []
   \<and> encode Int8Opt (Some 5) = Inr [5]
   \<and> decode Int8Opt (freshBytes []) = Inr None
   \<and> decode Int8Opt (freshBytes [5]) = Inr (Some 5)
   \<and> decode p0_Int8Opt (freshBytes [1, 2]) = Inl (DecodeError 1 2)
   \<and> decode p0_Int8 (freshBytes [1, 2]) = Inl (DecodeError 1 2)"
  using option_codec_behaviour [of Int8 5 "freshBytes [5]"]
    option_codec_behaviour [of p0_Int8 5 "freshBytes [1, 2]"]
    option_codec_behaviour [of Int8 5 "freshBytes []"]
  by (simp add: Int8Opt_def p0_Int8Opt_def Int8_encode_small Int8_decode_one
      p0_Int8_def Codec_from_def fixedBytesFrom_def bytesFrom_def)

section \<open>Items, offsets and slices\<close>

lemma length_uint32To [simp]: "length (uint32To n) = 4"
  by (simp add: uint32To_def)

lemma uint32From_uint32To: "n < 2 ^ 32 \<Longrightarrow> uint32From (uint32To n) = n"
proof -
  assume "n < 2 ^ 32"
  then have "int n < 256 ^ 4" by simp
  then have "int n mod 256 ^ 4 = int n" by simp
  then show ?thesis
    by (simp only: uint32From_def uint32To_def valueLE_rawBytesLE nat_int)
qed

lemma encodeItems_length:
  "encodeItems enc i xs = Inr bs \<Longrightarrow> length bs = length xs"
  by (induction xs arbitrary: i bs) (auto split: sum.splits)

lemma encodeItems_nth:
  "encodeItems enc i xs = Inr bs \<Longrightarrow> j < length xs \<Longrightarrow> enc (xs ! j) = Inr (bs ! j)"
proof (induction xs arbitrary: i bs j)
  case Nil
  then show ?case by simp
next
  case (Cons x xs)
  then show ?case by (cases j) (auto split: sum.splits)
qed

lemma length_itemOffsets [simp]: "length (itemOffsets pos bs) = Suc (length bs)"
  by (induction bs arbitrary: pos) simp_all

lemma itemOffsets_nth:
  "i \<le> length bs \<Longrightarrow> itemOffsets pos bs ! i = pos + length (concat (take i bs))"
proof (induction bs arbitrary: pos i)
  case Nil
  then show ?case by simp
next
  case (Cons b bs)
  then show ?case by (cases i) simp_all
qed

lemma sorted_itemOffsets: "sorted (itemOffsets pos bs)"
proof (induction bs arbitrary: pos)
  case Nil
  show ?case by simp
next
  case (Cons b bs)
  have "\<forall>x \<in> set (itemOffsets (pos + length b) bs). pos \<le> x"
  proof
    fix x assume "x \<in> set (itemOffsets (pos + length b) bs)"
    then obtain i where "i < length (itemOffsets (pos + length b) bs)"
      "x = itemOffsets (pos + length b) bs ! i"
      by (auto simp: in_set_conv_nth)
    then show "pos \<le> x" by (simp add: itemOffsets_nth)
  qed
  with Cons show ?case by simp
qed

lemma length_concat_uint32To [simp]: "length (concat (map uint32To ns)) = 4 * length ns"
  by (induction ns) simp_all

lemma table_entry:
  "i < length ns \<Longrightarrow> take 4 (drop (4 * i) (concat (map uint32To ns))) = uint32To (ns ! i)"
proof (induction ns arbitrary: i)
  case Nil
  then show ?case by simp
next
  case (Cons n ns)
  show ?case
  proof (cases i)
    case 0
    then show ?thesis by simp
  next
    case (Suc j)
    with Cons.prems have "j < length ns" by simp
    from Cons.IH [OF this] Suc show ?thesis by simp
  qed
qed

lemma concat_item:
  "i < length bs \<Longrightarrow>
     take (length (bs ! i)) (drop (length (concat (take i bs))) (concat bs)) = bs ! i"
proof (induction bs arbitrary: i)
  case Nil
  then show ?case by simp
next
  case (Cons b bs)
  then show ?case by (cases i) simp_all
qed

lemma firstDecrease_sorted: "firstDecrease xs = None \<longleftrightarrow> sorted xs"
proof (induction xs rule: firstDecrease.induct)
  case (1 a b rest)
  then show ?case by (auto simp: not_less)
qed simp_all

lemma itemRanges_eq:
  "itemRanges offs = map (\<lambda>i. (offs ! i, offs ! Suc i)) [0..<length offs - 1]"
proof (induction offs rule: itemRanges.induct)
  case (1 a b rest)
  have "[0..<Suc (length rest)] = 0 # map Suc [0..<length rest]"
    by (simp add: upt_conv_Cons map_Suc_upt del: upt_Suc)
  with 1 show ?case by (simp add: comp_def del: upt_Suc)
qed simp_all

lemma decodeItems_Inr:
  "decodeItems dec i bs = Inr ys \<longleftrightarrow>
     length ys = length bs \<and> (\<forall>j < length bs. dec (freshBytes (bs ! j)) = Inr (ys ! j))"
proof (induction bs arbitrary: i ys)
  case Nil
  then show ?case by auto
next
  case (Cons b bs)
  show ?case
  proof (cases ys)
    case Nil
    then show ?thesis by (auto split: sum.splits)
  next
    case (Cons y ys')
    then show ?thesis
      using Cons.IH [of "Suc i" ys']
      by (auto split: sum.splits simp: nth_Cons All_less_Suc2 split: nat.splits)
  qed
qed

lemma decodeItems_Inl:
  "decodeItems dec i bs = Inl e \<Longrightarrow>
     \<exists>j e'. j < length bs \<and> e = ItemError (i + j) e' \<and> dec (freshBytes (bs ! j)) = Inl e'
          \<and> (\<forall>k < j. \<exists>v. dec (freshBytes (bs ! k)) = Inr v)"
proof (induction bs arbitrary: i)
  case Nil
  then show ?case by simp
next
  case (Cons b bs)
  show ?case
  proof (cases "dec (freshBytes b)")
    case (Inl e')
    with Cons.prems show ?thesis by (intro exI [of _ 0]) auto
  next
    case (Inr v)
    with Cons.prems have "decodeItems dec (Suc i) bs = Inl e"
      by (auto split: sum.splits)
    from Cons.IH [OF this] obtain j e' where j: "j < length bs" "e = ItemError (Suc i + j) e'"
      "dec (freshBytes (bs ! j)) = Inl e'" "\<forall>k < j. \<exists>v. dec (freshBytes (bs ! k)) = Inr v"
      by blast
    show ?thesis
    proof (intro exI [of _ "Suc j"] exI [of _ e'] conjI allI impI)
      fix k assume "k < Suc j"
      then show "\<exists>v. dec (freshBytes ((b # bs) ! k)) = Inr v"
        using j(4) Inr by (cases k) auto
    qed (use j in auto)
  qed
qed

lemma uint32To_bytes:
  "uint32To n = [word_of_int (int n), word_of_int (int n div 256),
     word_of_int (int n div 256 div 256), word_of_int (int n div 256 div 256 div 256)]"
  by (simp only: uint32To_def rawBytesLE_4)

lemma readOffsets_4:
  "readOffsets buf 4 = [uint32From (slice buf 4 8), uint32From (slice buf 8 12),
      uint32From (slice buf 12 16), uint32From (slice buf 16 20)]"
proof -
  have "[0..<4] = [0, 1, 2, 3]"
    by (simp add: eval_nat_numeral)
  then show ?thesis by (simp add: readOffsets_def)
qed

section \<open>The variable-item layout\<close>

lemma length_readOffsets [simp]: "length (readOffsets buf n) = n"
  by (simp add: readOffsets_def)

lemma readOffsets_nth:
  "i < n \<Longrightarrow> readOffsets buf n ! i = uint32From (slice buf (4 + 4 * i) (8 + 4 * i))"
  by (simp add: readOffsets_def)

lemma hd_readOffsets: "hd (readOffsets buf (Suc n)) = uint32From (slice buf 4 8)"
  by (simp add: readOffsets_def upt_conv_Cons del: upt_Suc)

lemma offsetTableValid_first:
  assumes "offsetTableValid buf n"
  shows "uint32From (take 4 buf) = length buf" "uint32From (slice buf 4 8) = 4 * (n + 2)"
    "sorted (readOffsets buf (n + 1))" "last (readOffsets buf (n + 1)) = length buf"
    "4 * (n + 2) \<le> length buf"
proof -
  let ?offs = "readOffsets buf (n + 1)"
  from assms show a: "uint32From (take 4 buf) = length buf"
    and s: "sorted ?offs" and l: "last ?offs = length buf"
    by (simp_all add: offsetTableValid_def Let_def)
  from assms have h: "hd ?offs = 4 * (n + 2)"
    by (simp add: offsetTableValid_def Let_def)
  then show "uint32From (slice buf 4 8) = 4 * (n + 2)"
    by (simp add: hd_readOffsets)
  have ne: "?offs \<noteq> []" by (simp add: readOffsets_def)
  have "hd ?offs \<le> last ?offs"
    using s ne by (metis hd_conv_nth last_conv_nth sorted_nth_mono length_greater_0_conv
        diff_less zero_less_one le0)
  with h l show "4 * (n + 2) \<le> length buf" by simp
qed

lemma dyn_decode_valid:
  assumes "offsetTableValid buf n"
  shows "dynItemVec_decode c buf =
           decodeItems (decode c) 0
             (map (\<lambda>i. slice buf (readOffsets buf (n + 1) ! i) (readOffsets buf (n + 1) ! Suc i))
                [0..<n])"
proof -
  note v = offsetTableValid_first [OF assms]
  have cnt: "4 * (n + 2) div 4 - 2 = n" by simp
  have m: "4 * (n + 2) mod 4 = 0" by simp
  have fd: "firstDecrease (readOffsets buf (Suc n)) = None"
    using v(3) by (simp add: firstDecrease_sorted)
  show ?thesis
    using v(1,2,4,5) fd
    by (simp add: dynItemVec_decode_def Let_def itemRanges_eq comp_def del: upt_Suc)
qed

lemma dyn_decode_invalid:
  assumes "\<forall>n. \<not> offsetTableValid buf n"
  shows "\<exists>e a. dynItemVec_decode c buf = Inl (DecodeError e a)"
proof (rule ccontr)
  assume no: "\<not> (\<exists>e a. dynItemVec_decode c buf = Inl (DecodeError e a))"
  let ?first = "uint32From (slice buf 4 8)"
  let ?n = "?first div 4 - 2"
  let ?offs = "readOffsets buf (?n + 1)"
  from no have a: "4 \<le> length buf" "uint32From (take 4 buf) = length buf"
    "8 \<le> length buf" "8 \<le> ?first" "?first mod 4 = 0" "?first \<le> length buf"
    by (auto simp: dynItemVec_decode_def Let_def split: if_splits)
  with no have b: "firstDecrease ?offs = None"
    by (auto simp: dynItemVec_decode_def Let_def split: if_splits option.splits)
  with no a have l: "last ?offs = length buf"
    by (auto simp: dynItemVec_decode_def Let_def split: if_splits option.splits)
  have f: "4 * (?n + 2) = ?first" using a(4,5) by presburger
  have "offsetTableValid buf ?n"
    using a(2) b l f by (simp add: offsetTableValid_def Let_def firstDecrease_sorted hd_readOffsets)
  with assms show False by blast
qed

lemma itemOffsets_step:
  assumes "i < length bs"
  shows "itemOffsets pos bs ! Suc i = itemOffsets pos bs ! i + length (bs ! i)"
  using assms by (simp add: itemOffsets_nth take_Suc_conv_app_nth)

lemma itemOffsets_le:
  assumes "i \<le> length bs"
  shows "itemOffsets pos bs ! i \<le> pos + length (concat bs)"
proof -
  have "concat bs = concat (take i bs) @ concat (drop i bs)"
    by (metis append_take_drop_id concat_append)
  then have "length (concat (take i bs)) \<le> length (concat bs)"
    by (metis length_append le_add1)
  with assms show ?thesis by (simp add: itemOffsets_nth)
qed

lemma itemOffsets_nonempty [simp]: "itemOffsets pos bs \<noteq> []"
  by (cases bs) simp_all

lemma last_itemOffsets: "last (itemOffsets pos bs) = pos + length (concat bs)"
  by (induction bs arbitrary: pos) simp_all

text \<open>The buffer that the variable-item encoder builds, read back field by field.\<close>

lemma dyn_layout_read:
  fixes bs :: "Bytes list"
  assumes tot: "T = 4 * (N + 2) + length (concat bs)" "T < 2 ^ 32"
    and N: "N = length bs"
  defines "offs \<equiv> itemOffsets (4 * (N + 2)) bs"
  defines "buf \<equiv> uint32To T @ concat (map uint32To offs) @ concat bs"
  shows "length buf = T"
    and "uint32From (take 4 buf) = T"
    and "readOffsets buf (N + 1) = offs"
    and "\<forall>i < N. slice buf (offs ! i) (offs ! Suc i) = bs ! i"
proof -
  have lo: "length offs = N + 1" by (simp add: offs_def N)
  show len: "length buf = T"
    by (simp add: buf_def lo tot(1))
  show "uint32From (take 4 buf) = T"
    using tot(2) by (simp add: buf_def uint32From_uint32To)
  have small: "offs ! i < 2 ^ 32" if "i \<le> N" for i
    using itemOffsets_le [of i bs "4 * (N + 2)"] that tot N by (simp add: offs_def)
  have entry: "slice buf (4 + 4 * i) (8 + 4 * i) = uint32To (offs ! i)" if "i \<le> N" for i
  proof -
    have "slice buf (4 + 4 * i) (8 + 4 * i)
            = take 4 (drop (4 * i) (concat (map uint32To offs) @ concat bs))"
      by (simp add: slice_def buf_def)
    also have "\<dots> = take 4 (drop (4 * i) (concat (map uint32To offs)))"
      using that lo by simp
    also have "\<dots> = uint32To (offs ! i)"
      using that lo by (intro table_entry) simp
    finally show ?thesis .
  qed
  show "readOffsets buf (N + 1) = offs"
  proof (rule nth_equalityI)
    show "length (readOffsets buf (N + 1)) = length offs" by (simp add: lo)
  next
    fix i assume "i < length (readOffsets buf (N + 1))"
    then have i: "i \<le> N" by simp
    then show "readOffsets buf (N + 1) ! i = offs ! i"
      using entry [OF i] small [OF i] by (simp add: readOffsets_nth uint32From_uint32To)
  qed
  show "\<forall>i < N. slice buf (offs ! i) (offs ! Suc i) = bs ! i"
  proof (intro allI impI)
    fix i assume i: "i < N"
    have o: "offs ! i = 4 * (N + 2) + length (concat (take i bs))"
      using i N by (simp add: offs_def itemOffsets_nth)
    have st: "offs ! Suc i = offs ! i + length (bs ! i)"
      using i N by (simp add: offs_def itemOffsets_step)
    have "drop (offs ! i) buf = drop (length (concat (take i bs))) (concat bs)"
      by (simp add: buf_def o lo)
    then show "slice buf (offs ! i) (offs ! Suc i) = bs ! i"
      using i N by (simp add: slice_def st concat_item)
  qed
qed

lemma dyn_layout_valid:
  fixes bs :: "Bytes list"
  assumes tot: "T = 4 * (N + 2) + length (concat bs)" "T < 2 ^ 32"
    and N: "N = length bs"
  shows "offsetTableValid
           (uint32To T @ concat (map uint32To (itemOffsets (4 * (N + 2)) bs)) @ concat bs) N"
proof -
  note r = dyn_layout_read [OF tot N]
  have "hd (itemOffsets (4 * (N + 2)) bs) = 4 * (N + 2)"
    by (cases bs) simp_all
  then show ?thesis
    using r(1,2,3) tot(1)
    by (simp add: offsetTableValid_def Let_def sorted_itemOffsets last_itemOffsets)
qed

lemma vector_dyn:
  "byteLength c = None \<Longrightarrow> encode (vector c) = dynItemVec_encode c"
  "byteLength c = None \<Longrightarrow> decode (vector c) b = dynItemVec_decode c (contents b)"
  by (simp_all add: vector_def Codec_from_def bytesFrom_def)

lemma vector_fixed:
  "byteLength c = Some L \<Longrightarrow> encode (vector c) = fixedItemVec_encode c"
  "byteLength c = Some L \<Longrightarrow> decode (vector c) b = fixedItemVec_decode c L (contents b)"
  by (simp_all add: vector_def Codec_from_def bytesFrom_def)


text \<open>
  Decoding what the encoder wrote gives the items back when the inner codec does: the
  encoder's buffer passes every check of the decoder.
\<close>

lemma vector_variable_roundtrip:
  assumes "byteLength c = None" "encodeItems (encode c) 0 items = Inr bs"
    and "4 * (length items + 2) + length (concat bs) < 2 ^ 32"
    and "\<forall>j < length items. decode c (freshBytes (bs ! j)) = Inr (items ! j)"
  shows "roundTrip (vector c) items = Inr items"
proof -
  define N where "N = length items"
  define T where "T = 4 * (N + 2) + length (concat bs)"
  define buf where
    "buf = uint32To T @ concat (map uint32To (itemOffsets (4 * (N + 2)) bs)) @ concat bs"
  have Nb: "N = length bs"
    using encodeItems_length [OF assms(2)] by (simp add: N_def)
  have Tl: "T < 2 ^ 32" using assms(3) by (simp add: T_def N_def)
  note r = dyn_layout_read [OF T_def Tl Nb, folded buf_def]
  have v: "offsetTableValid buf N"
    unfolding buf_def by (rule dyn_layout_valid [OF T_def Tl Nb])
  have e: "encode (vector c) items = Inr buf"
    using assms(1,2) Nb
    by (simp add: vector_dyn dynItemVec_encode_def Let_def buf_def T_def N_def)
  have "map (\<lambda>i. slice buf (readOffsets buf (N + 1) ! i) (readOffsets buf (N + 1) ! Suc i))
          [0..<N] = bs"
    using r(3,4) Nb by (intro nth_equalityI) simp_all
  then have "decode (vector c) (freshBytes buf) = decodeItems (decode c) 0 bs"
    using assms(1) dyn_decode_valid [OF v, of c] by (simp add: vector_dyn)
  also have "\<dots> = Inr items"
    using assms(4) Nb by (simp add: decodeItems_Inr N_def)
  finally show ?thesis using e by (simp add: roundTrip_def)
qed

text \<open>
  The example of section 8: the vector of optional 8-bit integers on \<open>[present 1, absent,
  present 2]\<close>, and the same buffer with its third offset made smaller than the second.
\<close>

lemma example_items:
  "encodeItems (encode p0_Int8Opt) 0 [Some 1, None, Some 2] = Inr [[1], [], [2]]"
  by (simp add: Int8Opt_encode)

lemma example_valid:
  "offsetTableValid [22, 0, 0, 0, 20, 0, 0, 0, 21, 0, 0, 0, 21, 0, 0, 0, 22, 0, 0, 0, 1, 2] 3"
  by (simp add: offsetTableValid_def readOffsets_4 slice_def uint32From_def)

lemma example_encode:
  "encode (vector p0_Int8Opt) [Some 1, None, Some 2] =
     Inr [22, 0, 0, 0, 20, 0, 0, 0, 21, 0, 0, 0, 21, 0, 0, 0, 22, 0, 0, 0, 1, 2]"
  by (simp add: vector_dyn Int8Opt_byteLength dynItemVec_encode_def Int8Opt_encode
      uint32To_bytes)

lemma example_decode:
  "decode (vector p0_Int8Opt)
      (freshBytes [22, 0, 0, 0, 20, 0, 0, 0, 21, 0, 0, 0, 21, 0, 0, 0, 22, 0, 0, 0, 1, 2]) =
     Inr [Some 1, None, Some 2]"
  by (simp add: vector_dyn Int8Opt_byteLength dynItemVec_decode_def readOffsets_4 slice_def
      uint32From_def Int8Opt_decode)

lemma corrupted_invalid:
  "\<forall>k. \<not> offsetTableValid
     [22, 0, 0, 0, 20, 0, 0, 0, 21, 0, 0, 0, 20, 0, 0, 0, 22, 0, 0, 0, 1, 2] k"
proof (intro allI notI)
  fix k
  let ?b = "[22, 0, 0, 0, 20, 0, 0, 0, 21, 0, 0, 0, 20, 0, 0, 0, 22, 0, 0, 0, 1, 2] :: Bytes"
  assume v: "offsetTableValid ?b k"
  from offsetTableValid_first(2) [OF v] have "k = 3"
    by (simp add: slice_def uint32From_def)
  with offsetTableValid_first(3) [OF v] show False
    by (simp add: readOffsets_4 slice_def uint32From_def)
qed

lemma corrupted_decode:
  "decode (vector p0_Int8Opt)
      (freshBytes [22, 0, 0, 0, 20, 0, 0, 0, 21, 0, 0, 0, 20, 0, 0, 0, 22, 0, 0, 0, 1, 2]) =
     Inl (DecodeError 21 20)"
  by (simp add: vector_dyn Int8Opt_byteLength dynItemVec_decode_def readOffsets_4 slice_def
      uint32From_def)

text \<open>
  C4: for the vector combinator over an inner codec without static length. Encoding \<open>N\<close>
  items (whose encoded size fits the 4-byte length field) gives the 4-byte little-endian
  total length, equal to the size of the whole encoding, then \<open>N + 1\<close> 4-byte offsets
  of which the first is \<open>4 * (N + 2)\<close> and the last is the total length, then the item
  encodings back to back, item \<open>i\<close> lying between offset \<open>i\<close> and offset \<open>i + 1\<close>.
  Decoding a buffer that passes the checks (the total-length field equals the buffer's
  length, the offsets are non-decreasing, the first offset points past the header and the
  offset table, the last offset equals the total length) decodes item \<open>i\<close> from the bytes
  between offset \<open>i\<close> and offset \<open>i + 1\<close>; a buffer that passes them for no count is
  rejected with a \<open>DecodeError\<close>; and a successful decoding implies the checks.
\<close>

theorem vector_variable_layout:
  assumes "byteLength c = None"
  shows "(encodeItems (encode c) 0 items = Inr bs
            \<and> 4 * (length items + 2) + length (concat bs) < 2 ^ 32 \<longrightarrow>
          (let N = length items;
               T = 4 * (N + 2) + length (concat bs);
               offsets = itemOffsets (4 * (N + 2)) bs;
               buf = uint32To T @ concat (map uint32To offsets) @ concat bs
           in encode (vector c) items = Inr buf
              \<and> length buf = T
              \<and> uint32From (take 4 buf) = T
              \<and> readOffsets buf (N + 1) = offsets
              \<and> offsets ! 0 = 4 * (N + 2)
              \<and> offsets ! N = T
              \<and> (\<forall>i < N. slice buf (offsets ! i) (offsets ! Suc i) = bs ! i)))
       \<and> (offsetTableValid (contents buffer) n \<longrightarrow>
            decode (vector c) buffer =
              decodeItems (decode c) 0
                (map (\<lambda>i. slice (contents buffer)
                             (readOffsets (contents buffer) (n + 1) ! i)
                             (readOffsets (contents buffer) (n + 1) ! Suc i)) [0..<n]))
       \<and> ((\<forall>k. \<not> offsetTableValid (contents buffer) k) \<longrightarrow>
            (\<exists>e a. decode (vector c) buffer = Inl (DecodeError e a)))
       \<and> (decode (vector c) buffer = Inr ys \<longrightarrow>
            offsetTableValid (contents buffer) (length ys)
            \<and> (\<forall>i < length ys.
                  decode c (freshBytes (slice (contents buffer)
                                (readOffsets (contents buffer) (length ys + 1) ! i)
                                (readOffsets (contents buffer) (length ys + 1) ! Suc i)))
                    = Inr (ys ! i)))"
proof (intro conjI impI)
  assume a: "encodeItems (encode c) 0 items = Inr bs
              \<and> 4 * (length items + 2) + length (concat bs) < 2 ^ 32"
  define N where "N = length items"
  define T where "T = 4 * (N + 2) + length (concat bs)"
  define offsets where "offsets = itemOffsets (4 * (N + 2)) bs"
  define buf where "buf = uint32To T @ concat (map uint32To offsets) @ concat bs"
  have Nb: "N = length bs"
    using a encodeItems_length [of "encode c" 0 items bs] by (simp add: N_def)
  have Tl: "T < 2 ^ 32" using a by (simp add: T_def N_def)
  note r = dyn_layout_read [OF T_def Tl Nb, folded offsets_def, folded buf_def]
  have e: "encode (vector c) items = Inr buf"
    using a assms Nb
    by (simp add: vector_dyn dynItemVec_encode_def Let_def buf_def offsets_def T_def N_def)
  have o0: "offsets ! 0 = 4 * (N + 2)"
    by (simp add: offsets_def itemOffsets_nth)
  have oN: "offsets ! N = T"
    by (simp add: offsets_def itemOffsets_nth Nb T_def)
  show "let N = length items;
            T = 4 * (N + 2) + length (concat bs);
            offsets = itemOffsets (4 * (N + 2)) bs;
            buf = uint32To T @ concat (map uint32To offsets) @ concat bs
        in encode (vector c) items = Inr buf
           \<and> length buf = T
           \<and> uint32From (take 4 buf) = T
           \<and> readOffsets buf (N + 1) = offsets
           \<and> offsets ! 0 = 4 * (N + 2)
           \<and> offsets ! N = T
           \<and> (\<forall>i < N. slice buf (offsets ! i) (offsets ! Suc i) = bs ! i)"
    unfolding Let_def N_def [symmetric] T_def [symmetric] offsets_def [symmetric]
      buf_def [symmetric]
    using e r o0 oN by simp
next
  assume "offsetTableValid (contents buffer) n"
  then show "decode (vector c) buffer =
      decodeItems (decode c) 0
        (map (\<lambda>i. slice (contents buffer)
                     (readOffsets (contents buffer) (n + 1) ! i)
                     (readOffsets (contents buffer) (n + 1) ! Suc i)) [0..<n])"
    using assms by (simp add: vector_dyn dyn_decode_valid)
next
  assume "\<forall>k. \<not> offsetTableValid (contents buffer) k"
  then show "\<exists>e a. decode (vector c) buffer = Inl (DecodeError e a)"
    using assms by (simp add: vector_dyn dyn_decode_invalid)
next
  assume d: "decode (vector c) buffer = Inr ys"
  let ?b = "contents buffer"
  from d have "\<not> (\<exists>e a. dynItemVec_decode c ?b = Inl (DecodeError e a))"
    using assms by (simp add: vector_dyn)
  then obtain n where n: "offsetTableValid ?b n"
    using dyn_decode_invalid [of ?b c] by blast
  let ?sl = "map (\<lambda>i. slice ?b (readOffsets ?b (n + 1) ! i)
                              (readOffsets ?b (n + 1) ! Suc i)) [0..<n]"
  have "decodeItems (decode c) 0 ?sl = Inr ys"
    using d assms dyn_decode_valid [OF n, of c] by (simp add: vector_dyn)
  then have l: "length ys = n"
    and i: "\<forall>j < n. decode c (freshBytes (?sl ! j)) = Inr (ys ! j)"
    by (simp_all add: decodeItems_Inr)
  from l n show "offsetTableValid (contents buffer) (length ys)" by simp
  from l i show "\<forall>i < length ys.
        decode c (freshBytes (slice (contents buffer)
                      (readOffsets (contents buffer) (length ys + 1) ! i)
                      (readOffsets (contents buffer) (length ys + 1) ! Suc i)))
          = Inr (ys ! i)"
    by simp
qed

theorem vector_variable_layout_witness:
  "byteLength p0_Int8Opt = None
   \<and> encodeItems (encode p0_Int8Opt) 0 [Some 1, None, Some 2] = Inr [[1], [], [2]]
   \<and> 4 * (length [Some 1, None, Some (2::int)] + 2) + length (concat [[1], [], [2::byte]])
        < (2::nat) ^ 32
   \<and> encode (vector p0_Int8Opt) [Some 1, None, Some 2] =
        Inr [22, 0, 0, 0, 20, 0, 0, 0, 21, 0, 0, 0, 21, 0, 0, 0, 22, 0, 0, 0, 1, 2]
   \<and> offsetTableValid
        [22, 0, 0, 0, 20, 0, 0, 0, 21, 0, 0, 0, 21, 0, 0, 0, 22, 0, 0, 0, 1, 2] 3
   \<and> decode (vector p0_Int8Opt) (freshBytes
        [22, 0, 0, 0, 20, 0, 0, 0, 21, 0, 0, 0, 21, 0, 0, 0, 22, 0, 0, 0, 1, 2]) =
        Inr [Some 1, None, Some 2]
   \<and> decode p0_Int8Opt (freshBytes (slice
        [22, 0, 0, 0, 20, 0, 0, 0, 21, 0, 0, 0, 21, 0, 0, 0, 22, 0, 0, 0, 1, 2] 21 21)) =
        Inr None
   \<and> (\<forall>k. \<not> offsetTableValid
        [22, 0, 0, 0, 20, 0, 0, 0, 21, 0, 0, 0, 20, 0, 0, 0, 22, 0, 0, 0, 1, 2] k)
   \<and> (\<exists>e a. decode (vector p0_Int8Opt) (freshBytes
        [22, 0, 0, 0, 20, 0, 0, 0, 21, 0, 0, 0, 20, 0, 0, 0, 22, 0, 0, 0, 1, 2]) =
        Inl (DecodeError e a))"
  using
    vector_variable_layout [OF Int8Opt_byteLength(2),
      of "[Some 1, None, Some 2]" "[[1], [], [2]]"
         "freshBytes [22, 0, 0, 0, 20, 0, 0, 0, 21, 0, 0, 0, 21, 0, 0, 0, 22, 0, 0, 0, 1, 2]"
         3 "[Some 1, None, Some 2]"]
    vector_variable_layout [OF Int8Opt_byteLength(2),
      of "[Some 1, None, Some 2]" "[[1], [], [2]]"
         "freshBytes [22, 0, 0, 0, 20, 0, 0, 0, 21, 0, 0, 0, 20, 0, 0, 0, 22, 0, 0, 0, 1, 2]"
         3 "[Some 1, None, Some 2]"]
  by (simp add: Int8Opt_byteLength example_items example_valid example_decode example_encode
      corrupted_invalid corrupted_decode Int8Opt_decode slice_def
      del: encodeItems.simps)

section \<open>The fixed-item layout\<close>

text \<open>
  For an inner codec of static length \<open>L\<close> the encoding is the 4-byte little-endian count
  followed by the item encodings, \<open>4 + N * L\<close> bytes when every item has \<open>L\<close> bytes.
\<close>

lemma fixed_layout:
  assumes "byteLength c = Some L" "encodeItems (encode c) 0 items = Inr bs"
  shows "encode (vector c) items = Inr (uint32To (length items) @ concat bs)"
    and "\<forall>b \<in> set bs. length b = L \<Longrightarrow>
           length (uint32To (length items) @ concat bs) = 4 + length items * L"
proof -
  show "encode (vector c) items = Inr (uint32To (length items) @ concat bs)"
    using assms by (simp add: vector_fixed fixedItemVec_encode_def)
  assume "\<forall>b \<in> set bs. length b = L"
  then have "length (concat bs) = length bs * L"
    by (induction bs) simp_all
  then show "length (uint32To (length items) @ concat bs) = 4 + length items * L"
    using encodeItems_length [OF assms(2)] by simp
qed

lemma chunks_3_1: "chunks 3 (Suc 0) [a, b, c] = [[a], [b], [c]]"
  by (simp add: eval_nat_numeral)

lemma Int8Vec_examples:
  "encode Int8Vec [1, 2, 3] = Inr [0x03, 0x00, 0x00, 0x00, 0x01, 0x02, 0x03]
   \<and> decode Int8Vec (freshBytes [0x03, 0x00, 0x00, 0x00, 0x01, 0x02, 0x03]) = Inr [1, 2, 3]
   \<and> decode Int8Vec (freshBytes [0x03, 0x00, 0x00, 0x00, 0x01, 0x02]) =
       Inl (DecodeError 7 6)"
proof -
  have b: "byteLength Int8 = Some 1" by (simp add: Int8_def Codec_from_def)
  show ?thesis
    by (simp add: Int8Vec_def vector_fixed [OF b] fixedItemVec_encode_def
        fixedItemVec_decode_def Int8_encode_small Int8_decode_one uint32To_bytes
        uint32From_def chunks_3_1)
qed

text \<open>
  C5 fails for the \<open>Int8Vec\<close> of the second module. Its \<open>Int8\<close> declares no static
  length, so \<open>vector\<close> chooses the variable-item layout: \<open>[1, 2, 3]\<close> encodes to a
  total length, an offset table and three items (the 23 bytes below, in the layout of
  section 6) instead of \<open>03 00 00 00 01 02 03\<close>, and that 7-byte buffer is rejected, its
  first field 3 not being the buffer's length 7. The \<open>Int8Vec\<close> of
  \<open>molecule/signed.ts\<close> behaves as the claim says (\<open>Int8Vec_examples\<close>).
\<close>

theorem p0_Int8Vec_uses_variable_layout:
  "encode p0_Int8Vec [1, 2, 3] =
     Inr [23, 0, 0, 0, 20, 0, 0, 0, 21, 0, 0, 0, 22, 0, 0, 0, 23, 0, 0, 0, 1, 2, 3]
   \<and> decode p0_Int8Vec (freshBytes [0x03, 0x00, 0x00, 0x00, 0x01, 0x02, 0x03]) =
       Inl (DecodeError 3 7)"
proof -
  have b: "byteLength p0_Int8 = None" by (simp add: p0_Int8_def Codec_from_def)
  show ?thesis
    by (simp add: p0_Int8Vec_def vector_dyn [OF b] dynItemVec_encode_def
        dynItemVec_decode_def Int8_encode_small uint32To_bytes uint32From_def)
qed

end
